theory Spec2Isabelle
  imports Complex_Main "HOL-Library.Word" "HOL-Library.Log_Nat"
begin

section \<open>JavaScript values used by the slideshow pipeline\<close>

text \<open>
  A JavaScript number is modelled by the rational it denotes: a finite IEEE-754 double.
  Every arithmetic operation of the source on such numbers is the exact operation followed
  by \<open>roundDouble\<close>, rounding to the nearest double, ties to the even significand. The
  exponent range is not bounded: overflow to \<open>Infinity\<close> and gradual underflow are not
  modelled, nor are \<open>NaN\<close> and the negative zero. Counters (loop indices, lengths, pixel
  sizes) are \<^typ>\<open>nat\<close>, and integers computed from them, frame counts and percentages
  are \<^typ>\<open>int\<close>: on these JavaScript computes exactly. Strings are byte lists;
  \<open>toLowerCase\<close> is modelled on ASCII.
\<close>

type_synonym bytes = "8 word list"

subsection \<open>Double arithmetic\<close>

text \<open>\<open>ilog2 x\<close>, for positive \<open>x\<close>: the exponent \<open>k\<close> with \<open>2^k \<le> x < 2^(k+1)\<close>.\<close>

definition ilog2 :: "rat \<Rightarrow> int" where
  "ilog2 x =
     (if 1 \<le> x then bitlen \<lfloor>x\<rfloor> - 1
      else let j = bitlen \<lfloor>1 / x\<rfloor> - 1
           in if x * 2 ^ nat j = 1 then - j else - j - 1)"

text \<open>The nearest integer, the even one of two equally near.\<close>

definition roundHalfEven :: "rat \<Rightarrow> int" where
  "roundHalfEven y =
     (let f = \<lfloor>y\<rfloor>; d = y - of_int f
      in if d < 1 / 2 then f else if 1 / 2 < d then f + 1 else if even f then f else f + 1)"

text \<open>The nearest number with a significand of 53 bits.\<close>

definition roundDouble :: "rat \<Rightarrow> rat" where
  "roundDouble x =
     (if x = 0 then 0
      else let a = \<bar>x\<bar>; e = ilog2 a - 52; m = roundHalfEven (a / 2 powi e)
           in sgn x * of_int m * 2 powi e)"

text \<open>\<open>x + y\<close>, \<open>x * y\<close> and \<open>x / y\<close> on numbers, and a decimal literal of the source.\<close>

definition dadd :: "rat \<Rightarrow> rat \<Rightarrow> rat" where
  "dadd x y = roundDouble (x + y)"

definition dmul :: "rat \<Rightarrow> rat \<Rightarrow> rat" where
  "dmul x y = roundDouble (x * y)"

definition ddiv :: "rat \<Rightarrow> rat \<Rightarrow> rat" where
  "ddiv x y = roundDouble (x / y)"

definition numberLiteral :: "rat \<Rightarrow> rat" where
  "numberLiteral r = roundDouble r"

subsection \<open>Strings and numbers\<close>

definition digitChar :: "nat \<Rightarrow> char" where
  "digitChar d = char_of (48 + d)"

text \<open>Template-literal rendering of a non-negative integer: its decimal digits.\<close>

fun showNat :: "nat \<Rightarrow> string" where
  "showNat n = (if n < 10 then [digitChar n] else showNat (n div 10) @ [digitChar (n mod 10)])"

declare showNat.simps [simp del]

definition showInt :: "int \<Rightarrow> string" where
  "showInt i = (if i < 0 then ''-'' @ showNat (nat (- i)) else showNat (nat i))"

text \<open>The value a digit string denotes; used to show that \<^const>\<open>showNat\<close> is injective.\<close>

definition digitsVal :: "string \<Rightarrow> nat" where
  "digitsVal s = foldl (\<lambda>a c. 10 * a + (of_char c - 48)) 0 s"

definition isDigit :: "char \<Rightarrow> bool" where
  "isDigit c = (48 \<le> (of_char c :: nat) \<and> (of_char c :: nat) \<le> 57)"

text \<open>
  \<open>Number.prototype.toFixed(2)\<close>: the sign, then the integer \<open>n\<close> for which
  \<open>n / 100\<close> is closest to the exact magnitude of the double (the larger one on a tie),
  written with two fraction digits. From \<open>10^21\<close> on JavaScript falls back to \<open>String(x)\<close>, which is the
  parameter \<open>numStr\<close> here.
\<close>

definition pad2 :: "nat \<Rightarrow> string" where
  "pad2 k = [digitChar (k div 10), digitChar (k mod 10)]"

definition toFixed2 :: "(rat \<Rightarrow> string) \<Rightarrow> rat \<Rightarrow> string" where
  "toFixed2 numStr x =
     (if 10 ^ 21 \<le> \<bar>x\<bar> then numStr x
      else let n = nat \<lfloor>\<bar>x\<bar> * 100 + 1 / 2\<rfloor>;
               m = showNat (n div 100) @ ''.'' @ pad2 (n mod 100)
           in if x < 0 then ''-'' @ m else m)"

text \<open>\<open>Array.prototype.join\<close>.\<close>

fun join :: "string \<Rightarrow> string list \<Rightarrow> string" where
  "join sep [] = []"
| "join sep [x] = x"
| "join sep (x # y # ys) = x @ sep @ join sep (y # ys)"

text \<open>\<open>String.prototype.split('.')\<close>: never the empty array; \<open>''''\<close> splits to \<open>['''']\<close>.\<close>

fun splitDot :: "string \<Rightarrow> string list" where
  "splitDot [] = [[]]"
| "splitDot (c # cs) =
     (if c = CHR ''.'' then [] # splitDot cs
      else (case splitDot cs of [] \<Rightarrow> [[c]] | p # ps \<Rightarrow> (c # p) # ps))"

text \<open>\<open>Array.prototype.pop\<close> read as a value: \<open>undefined\<close> on the empty array.\<close>

definition pop :: "'a list \<Rightarrow> 'a option" where
  "pop xs = (if xs = [] then None else Some (last xs))"

definition lowerChar :: "char \<Rightarrow> char" where
  "lowerChar c = (if 65 \<le> (of_char c :: nat) \<and> (of_char c :: nat) \<le> 90
                  then char_of ((of_char c :: nat) + 32) else c)"

definition toLowerCase :: "string \<Rightarrow> string" where
  "toLowerCase s = map lowerChar s"

text \<open>\<open>a || b\<close> on numbers, with \<open>None\<close> for \<open>NaN\<close>: \<open>NaN\<close> and \<open>0\<close> are falsy.\<close>

definition jsOr :: "rat option \<Rightarrow> rat \<Rightarrow> rat" where
  "jsOr a b = (case a of None \<Rightarrow> b | Some v \<Rightarrow> if v = 0 then b else v)"

text \<open>\<open>Math.round\<close>: the nearest integer, ties towards plus infinity; it is exact.\<close>

definition mathRound :: "rat \<Rightarrow> int" where
  "mathRound x = \<lfloor>x + 1 / 2\<rfloor>"

section \<open>Configuration (config.ts)\<close>

text \<open>
  The numeric literals are doubles: \<open>1.5\<close>, \<open>0.5\<close>, \<open>10\<close> and \<open>3\<close> are doubles as they
  stand; \<open>0.1\<close> is not and denotes the double nearest to it.
\<close>

definition DISPLAY_DURATION :: rat where "DISPLAY_DURATION = 3 / 2"
definition TRANSITION_DURATION :: rat where "TRANSITION_DURATION = 1 / 2"
definition VIDEO_FPS :: nat where "VIDEO_FPS = 30"
definition DISPLAY_DURATION_MIN :: rat where "DISPLAY_DURATION_MIN = 1 / 2"
definition DISPLAY_DURATION_MAX :: rat where "DISPLAY_DURATION_MAX = 10"
definition TRANSITION_DURATION_MIN :: rat where
  "TRANSITION_DURATION_MIN = numberLiteral (1 / 10)"
definition TRANSITION_DURATION_MAX :: rat where "TRANSITION_DURATION_MAX = 3"
definition MAX_FILES_SLIDESHOW :: nat where "MAX_FILES_SLIDESHOW = 20"
definition MAX_FILE_SIZE :: nat where "MAX_FILE_SIZE = 50 * 1024 * 1024"
definition ACCEPTED_FORMATS :: "string list" where
  "ACCEPTED_FORMATS = [''.png'', ''.jpg'', ''.jpeg'']"
definition ACCEPTED_MIME_TYPES :: "string list" where
  "ACCEPTED_MIME_TYPES = [''image/png'', ''image/jpeg'']"

definition LOADING_FFMPEG :: string where
  "LOADING_FFMPEG = ''Loading FFmpeg (one-time, ~10MB)...''"
definition ANALYZING_IMAGES :: string where
  "ANALYZING_IMAGES = ''Analyzing images...''"
definition GENERATING_VIDEO :: string where
  "GENERATING_VIDEO = ''Generating video...''"
definition PROCESSING_COMPLETE :: string where
  "PROCESSING_COMPLETE = ''Processing complete!''"
definition ERROR_FILE_TOO_LARGE :: string where
  "ERROR_FILE_TOO_LARGE = ''File size exceeds 50MB limit''"
definition ERROR_INVALID_FORMAT :: string where
  "ERROR_INVALID_FORMAT = ''Only PNG and JPG images are supported''"
definition ERROR_MAX_FILES :: string where
  "ERROR_MAX_FILES = ''Maximum 20 images allowed''"
definition ERROR_MIN_FILES_SLIDESHOW :: string where
  "ERROR_MIN_FILES_SLIDESHOW = ''Please upload at least 2 images''"
definition ERROR_FFMPEG_LOAD :: string where
  "ERROR_FFMPEG_LOAD = ''Failed to load FFmpeg. Please try again.''"
definition ERROR_PROCESSING :: string where
  "ERROR_PROCESSING = ''An error occurred during processing''"
definition ERROR_NO_SHAREDARRAYBUFFER :: string where
  "ERROR_NO_SHAREDARRAYBUFFER =
     ''Your browser does not support SharedArrayBuffer. Please use a modern browser with CORS isolation.''"

section \<open>The filter-graph compiler (SlideshowProcessor)\<close>

record processor =
  displayDuration :: rat
  transitionDuration :: rat
  fps :: nat

definition newProcessor :: processor where
  "newProcessor = \<lparr>displayDuration = DISPLAY_DURATION,
                    transitionDuration = TRANSITION_DURATION, fps = VIDEO_FPS\<rparr>"

text \<open>
  \<open>calculateDuration(index, total)\<close>. \<open>total - 1\<close> is computed on integers: for
  \<open>total = 0\<close> it is \<open>-1\<close> and equals no index.
\<close>

definition calculateDuration :: "processor \<Rightarrow> nat \<Rightarrow> nat \<Rightarrow> rat" where
  "calculateDuration P index totalCount =
     (if index = 0 \<or> int index = int totalCount - 1
      then dadd (displayDuration P) (ddiv (transitionDuration P) 2)
      else dadd (displayDuration P) (transitionDuration P))"

text \<open>
  The statement pushed by iteration \<open>i\<close> of the first loop of \<open>buildFilterComplex\<close>.
  \<open>numStr\<close> is JavaScript's rendering of a number inside a template literal, a
  parameter of the model.
\<close>

definition transformStatement ::
  "(rat \<Rightarrow> string) \<Rightarrow> processor \<Rightarrow> nat \<Rightarrow> nat \<Rightarrow> nat \<Rightarrow> nat \<Rightarrow> string" where
  "transformStatement numStr P i numImages width height =
     (let duration = calculateDuration P i numImages;
          frameCount = \<lceil>dmul duration (of_nat (fps P))\<rceil>;
          loopCount = max 0 (frameCount - 1)
      in ''['' @ showNat i @ '':v]scale='' @ showNat width @ '':'' @ showNat height
           @ '':force_original_aspect_ratio=decrease,''
           @ ''pad='' @ showNat width @ '':'' @ showNat height @ '':(ow-iw)/2:(oh-ih)/2:black,''
           @ ''setsar=1,fps='' @ showNat (fps P) @ '',format=yuva420p,''
           @ ''loop=loop='' @ showInt loopCount @ '':size=1:start=0,''
           @ ''trim=duration='' @ numStr duration @ '',setpts=PTS-STARTPTS[v'' @ showNat i @ '']'')"

function transformLoop ::
  "(rat \<Rightarrow> string) \<Rightarrow> processor \<Rightarrow> nat \<Rightarrow> nat \<Rightarrow> nat \<Rightarrow> nat \<Rightarrow> string list \<Rightarrow> string list" where
  "transformLoop numStr P i numImages width height filters =
     (if i < numImages
      then transformLoop numStr P (i + 1) numImages width height
             (filters @ [transformStatement numStr P i numImages width height])
      else filters)"
  by pat_completeness auto
termination
  by (relation "measure (\<lambda>(numStr, P, i, numImages, width, height, filters). numImages - i)") auto

declare transformLoop.simps [simp del]

text \<open>The three labels of iteration \<open>i\<close> of the second loop.\<close>

definition inputA :: "nat \<Rightarrow> string" where
  "inputA i = (if i = 0 then ''v'' @ showNat i else ''vout'' @ showNat i)"

definition inputB :: "nat \<Rightarrow> string" where
  "inputB i = ''v'' @ showNat (i + 1)"

definition outputLabel :: "nat \<Rightarrow> nat \<Rightarrow> string" where
  "outputLabel i numImages =
     (if int i = int numImages - 2 then ''vfinal'' else ''vout'' @ showNat (i + 1))"

definition xfadeStatement ::
  "(rat \<Rightarrow> string) \<Rightarrow> processor \<Rightarrow> nat \<Rightarrow> nat \<Rightarrow> rat \<Rightarrow> string" where
  "xfadeStatement numStr P i numImages offset =
     ''['' @ inputA i @ '']['' @ inputB i @ '']xfade=transition=fade:duration=''
       @ numStr (transitionDuration P) @ '':offset='' @ toFixed2 numStr offset
       @ ''['' @ outputLabel i numImages @ '']''"

function xfadeLoop ::
  "(rat \<Rightarrow> string) \<Rightarrow> processor \<Rightarrow> nat \<Rightarrow> nat \<Rightarrow> rat \<Rightarrow> string list \<Rightarrow> string list" where
  "xfadeLoop numStr P i numImages offset filters =
     (if int i < int numImages - 1
      then xfadeLoop numStr P (i + 1) numImages (dadd offset (displayDuration P))
             (filters @ [xfadeStatement numStr P i numImages offset])
      else filters)"
  by pat_completeness auto
termination
  by (relation "measure (\<lambda>(numStr, P, i, numImages, offset, filters). numImages - i)") auto

declare xfadeLoop.simps [simp del]

text \<open>The array \<open>filters\<close> at the end of \<open>buildFilterComplex\<close>, and the text it returns.\<close>

definition buildFilters ::
  "(rat \<Rightarrow> string) \<Rightarrow> processor \<Rightarrow> nat \<Rightarrow> nat \<Rightarrow> nat \<Rightarrow> string list" where
  "buildFilters numStr P numImages width height =
     xfadeLoop numStr P 0 numImages (displayDuration P)
       (transformLoop numStr P 0 numImages width height [])"

definition buildFilterComplex ::
  "(rat \<Rightarrow> string) \<Rightarrow> processor \<Rightarrow> nat \<Rightarrow> nat \<Rightarrow> nat \<Rightarrow> string" where
  "buildFilterComplex numStr P numImages width height =
     join '';'' (buildFilters numStr P numImages width height)"

text \<open>The value of the variable \<open>offset\<close> when iteration \<open>i\<close> of the second loop starts.\<close>

primrec offsetAt :: "processor \<Rightarrow> nat \<Rightarrow> rat" where
  "offsetAt P 0 = displayDuration P"
| "offsetAt P (Suc i) = dadd (offsetAt P i) (displayDuration P)"

text \<open>The argument vector \<open>process\<close> hands to the engine.\<close>

definition inputArgs :: "string list \<Rightarrow> string list" where
  "inputArgs inputFiles = concat (map (\<lambda>file. [''-i'', file]) inputFiles)"

definition outputFile :: string where
  "outputFile = ''slideshow.mp4''"

definition ffmpegArgs :: "string list \<Rightarrow> string \<Rightarrow> string list" where
  "ffmpegArgs inputFiles filterComplex =
     inputArgs inputFiles @
     [''-filter_complex'', filterComplex,
      ''-map'', ''[vfinal]'',
      ''-c:v'', ''libx264'',
      ''-pix_fmt'', ''yuv420p'',
      ''-preset'', ''fast'',
      ''-movflags'', ''+faststart'',
      ''-y'',
      outputFile]"

section \<open>Files and validation (validation.ts)\<close>

text \<open>
  A browser \<open>File\<close>: its name, MIME type, size and bytes, and what decoding it as an image
  yields (\<open>naturalWidth\<close>, \<open>naturalHeight\<close>), \<open>None\<close> when the image fails to load.
\<close>

record image_file =
  fileName :: string
  fileType :: string
  fileSize :: nat
  fileData :: bytes
  naturalSize :: "(nat \<times> nat) option"

text \<open>\<open>getExtension\<close>: \<open>parts.pop()?.toLowerCase() ?? 'jpg'\<close>.\<close>

definition getExtension :: "image_file \<Rightarrow> string" where
  "getExtension f =
     (let parts = splitDot (fileName f)
      in case pop parts of None \<Rightarrow> ''jpg'' | Some e \<Rightarrow> toLowerCase e)"

datatype validation_result = Valid | Invalid string

definition validateFile :: "image_file \<Rightarrow> validation_result" where
  "validateFile f =
     (let extension = ''.'' @ (case pop (splitDot (fileName f)) of
                                 None \<Rightarrow> ''undefined'' | Some e \<Rightarrow> toLowerCase e)
      in if extension \<notin> set ACCEPTED_FORMATS then Invalid ERROR_INVALID_FORMAT
         else if fileType f \<notin> set ACCEPTED_MIME_TYPES then Invalid ERROR_INVALID_FORMAT
         else if fileSize f > MAX_FILE_SIZE then Invalid ERROR_FILE_TOO_LARGE
         else Valid)"

fun validateEach :: "image_file list \<Rightarrow> validation_result" where
  "validateEach [] = Valid"
| "validateEach (f # fs) =
     (case validateFile f of Invalid e \<Rightarrow> Invalid e | Valid \<Rightarrow> validateEach fs)"

definition validateSlideshowFiles :: "image_file list \<Rightarrow> validation_result" where
  "validateSlideshowFiles files =
     (if length files < 2 then Invalid ERROR_MIN_FILES_SLIDESHOW
      else if length files > MAX_FILES_SLIDESHOW then Invalid ERROR_MAX_FILES
      else validateEach files)"

text \<open>
  \<open>analyzeImages\<close>: rejects when one image fails to load, otherwise the largest width and
  the largest height. It is only called with at least two files.
\<close>

fun allSizes :: "image_file list \<Rightarrow> (nat \<times> nat) list option" where
  "allSizes [] = Some []"
| "allSizes (f # fs) =
     (case naturalSize f of None \<Rightarrow> None
      | Some d \<Rightarrow> (case allSizes fs of None \<Rightarrow> None | Some ds \<Rightarrow> Some (d # ds)))"

definition analyzeImages :: "image_file list \<Rightarrow> (nat \<times> nat) option" where
  "analyzeImages files =
     (case allSizes files of None \<Rightarrow> None
      | Some dimensions \<Rightarrow>
          Some (fold max (map fst dimensions) 0, fold max (map snd dimensions) 0))"

section \<open>The state manager (state-manager.ts)\<close>

text \<open>The keys of \<open>AppState\<close> that the pipeline reads or writes.\<close>

record app_state =
  ffmpegLoaded :: bool
  ffmpegLoading :: bool
  processing :: bool
  progress :: int
  progressMessage :: string
  error :: "string option"

definition initialState :: app_state where
  "initialState = \<lparr>ffmpegLoaded = False, ffmpegLoading = False, processing = False,
                     progress = 0, progressMessage = [], error = None\<rparr>"

text \<open>One entry of the object passed to \<open>setState\<close>.\<close>

datatype update =
    SetFfmpegLoaded bool
  | SetFfmpegLoading bool
  | SetProcessing bool
  | SetProgress int
  | SetProgressMessage string
  | SetError "string option"

text \<open>Who called \<open>setState\<close>; recorded beside each progress value, for the statements only.\<close>

datatype writer = Orchestrator | EngineLoader | EngineProgress | Controller

datatype engine_call =
    Load
  | WriteFile string
  | Exec "string list"
  | ReadFile string
  | DeleteFile string

fun isWrite :: "engine_call \<Rightarrow> bool" where
  "isWrite (WriteFile n) = True"
| "isWrite _ = False"


text \<open>
  The process-wide state: the state manager's state, the callers of \<open>initialize\<close> subscribed
  to \<open>ffmpegLoaded\<close> with the promises already settled, the manager's \<open>loaded\<close> flag, the
  engine's virtual file system, and two histories kept for the statements: every value
  written to \<open>progress\<close> and every call made on the engine.
\<close>

record world =
  app :: app_state
  waiters :: "nat list"
  settled :: "(nat \<times> bool) list"
  loaded :: bool
  vfs :: "string \<rightharpoonup> bytes"
  progressLog :: "(writer \<times> int) list"
  engineLog :: "engine_call list"

definition initialWorld :: world where
  "initialWorld = \<lparr>app = initialState, waiters = [], settled = [], loaded = False,
                     vfs = Map.empty, progressLog = [], engineLog = []\<rparr>"

fun changes :: "app_state \<Rightarrow> update \<Rightarrow> bool" where
  "changes s (SetFfmpegLoaded b) = (ffmpegLoaded s \<noteq> b)"
| "changes s (SetFfmpegLoading b) = (ffmpegLoading s \<noteq> b)"
| "changes s (SetProcessing b) = (processing s \<noteq> b)"
| "changes s (SetProgress v) = (progress s \<noteq> v)"
| "changes s (SetProgressMessage m) = (progressMessage s \<noteq> m)"
| "changes s (SetError e) = (error s \<noteq> e)"

fun assign :: "update \<Rightarrow> app_state \<Rightarrow> app_state" where
  "assign (SetFfmpegLoaded b) s = s\<lparr>ffmpegLoaded := b\<rparr>"
| "assign (SetFfmpegLoading b) s = s\<lparr>ffmpegLoading := b\<rparr>"
| "assign (SetProcessing b) s = s\<lparr>processing := b\<rparr>"
| "assign (SetProgress v) s = s\<lparr>progress := v\<rparr>"
| "assign (SetProgressMessage m) s = s\<lparr>progressMessage := m\<rparr>"
| "assign (SetError e) s = s\<lparr>error := e\<rparr>"

text \<open>
  \<open>notify\<close>: the subscribers modelled here are the waiting callers of \<open>initialize\<close>, each
  of which unsubscribes and resolves its promise with the new value of \<open>ffmpegLoaded\<close>.
\<close>

fun notify :: "update \<Rightarrow> world \<Rightarrow> world" where
  "notify (SetFfmpegLoaded b) w =
     w\<lparr>settled := settled w @ map (\<lambda>c. (c, b)) (waiters w), waiters := []\<rparr>"
| "notify _ w = w"

fun progressWrites :: "update list \<Rightarrow> int list" where
  "progressWrites [] = []"
| "progressWrites (SetProgress v # us) = v # progressWrites us"
| "progressWrites (_ # us) = progressWrites us"

text \<open>\<open>setState\<close>: store the entries that differ, then notify the changed keys.\<close>

definition setState :: "writer \<Rightarrow> update list \<Rightarrow> world \<Rightarrow> world" where
  "setState who updates w =
     (let changedKeys = filter (changes (app w)) updates;
          w1 = w\<lparr>app := fold assign changedKeys (app w),
                 progressLog := progressLog w @ map (Pair who) (progressWrites updates)\<rparr>
      in fold notify changedKeys w1)"

section \<open>The engine manager (ffmpeg-manager.ts)\<close>

text \<open>
  What the browser and the engine decide: how a number prints, whether
  \<open>SharedArrayBuffer\<close> exists, whether \<open>ffmpeg.load\<close> resolves, which writes the engine
  rejects, what \<open>ffmpeg.exec\<close> does to the file system (\<open>None\<close>: it rejects) and the
  progress events it emits meanwhile.
\<close>

record env =
  numberToString :: "rat \<Rightarrow> string"
  hasSharedArrayBuffer :: bool
  loadSucceeds :: bool
  writeFileFails :: "string \<Rightarrow> bool"
  execResult :: "string list \<Rightarrow> (string \<rightharpoonup> bytes) \<Rightarrow> (string \<rightharpoonup> bytes) option"
  execProgress :: "rat list"

datatype init_entry = Done bool | AwaitOther | AwaitLoad

text \<open>
  \<open>initialize\<close> up to its first suspension: it returns at once, or subscribes to
  \<open>ffmpegLoaded\<close> and waits for another caller's load, or starts \<open>ffmpeg.load\<close> on a new
  engine instance and waits for it.
\<close>

definition initialize_begin :: "env \<Rightarrow> nat \<Rightarrow> world \<Rightarrow> init_entry \<times> world" where
  "initialize_begin e caller w =
     (if loaded w then (Done True, w)
      else if ffmpegLoading (app w) then (AwaitOther, w\<lparr>waiters := waiters w @ [caller]\<rparr>)
      else if \<not> hasSharedArrayBuffer e
        then (Done False, setState EngineLoader [SetError (Some ERROR_NO_SHAREDARRAYBUFFER)] w)
      else let w1 = setState EngineLoader
                      [SetFfmpegLoading True, SetProgressMessage LOADING_FFMPEG, SetProgress 0] w
           in (AwaitLoad, w1\<lparr>vfs := Map.empty, engineLog := engineLog w1 @ [Load]\<rparr>))"

text \<open>\<open>initialize\<close> after \<open>await this.ffmpeg.load(...)\<close>, which resolved or rejected.\<close>

definition initialize_finish :: "bool \<Rightarrow> world \<Rightarrow> bool \<times> world" where
  "initialize_finish ok w =
     (if ok
      then (True, setState EngineLoader
                    [SetFfmpegLoaded True, SetFfmpegLoading False, SetProgress 100]
                    (w\<lparr>loaded := True\<rparr>))
      else (False, setState EngineLoader
                     [SetFfmpegLoading False, SetError (Some ERROR_FFMPEG_LOAD)] w))"

text \<open>
  \<open>initialize\<close> as one run sees it when no other caller interleaves. \<open>None\<close>: the promise
  waits for a notification of \<open>ffmpegLoaded\<close>.
\<close>

definition initialize :: "env \<Rightarrow> nat \<Rightarrow> world \<Rightarrow> bool option \<times> world" where
  "initialize e caller w =
     (case initialize_begin e caller w of
        (Done b, w1) \<Rightarrow> (Some b, w1)
      | (AwaitOther, w1) \<Rightarrow> (None, w1)
      | (AwaitLoad, w1) \<Rightarrow>
          (let (b, w2) = initialize_finish (loadSucceeds e) w1 in (Some b, w2)))"

text \<open>The engine calls; \<open>None\<close> in the first component is a thrown exception.\<close>

definition writeFile :: "env \<Rightarrow> string \<Rightarrow> image_file \<Rightarrow> world \<Rightarrow> unit option \<times> world" where
  "writeFile e filename f w =
     (if \<not> loaded w then (None, w)
      else let w1 = w\<lparr>engineLog := engineLog w @ [WriteFile filename]\<rparr>
           in if writeFileFails e filename then (None, w1)
              else (Some (), w1\<lparr>vfs := (vfs w1)(filename \<mapsto> fileData f)\<rparr>))"

definition execute :: "env \<Rightarrow> string list \<Rightarrow> world \<Rightarrow> unit option \<times> world" where
  "execute e args w =
     (if \<not> loaded w then (None, w)
      else let w1 = w\<lparr>engineLog := engineLog w @ [Exec args]\<rparr>;
               w2 = fold (\<lambda>p. setState EngineProgress [SetProgress (mathRound (dmul p 100))])
                      (execProgress e) w1
           in case execResult e args (vfs w2) of
                None \<Rightarrow> (None, w2)
              | Some fs \<Rightarrow> (Some (), w2\<lparr>vfs := fs\<rparr>))"

definition readFile :: "string \<Rightarrow> world \<Rightarrow> bytes option \<times> world" where
  "readFile filename w =
     (if \<not> loaded w then (None, w)
      else (vfs w filename, w\<lparr>engineLog := engineLog w @ [ReadFile filename]\<rparr>))"

text \<open>
  \<open>deleteFile\<close>: the engine rejects the deletion of an absent file; the manager catches
  and ignores that.
\<close>

definition deleteFile :: "string \<Rightarrow> world \<Rightarrow> world" where
  "deleteFile filename w =
     (if \<not> loaded w then w
      else let w1 = w\<lparr>engineLog := engineLog w @ [DeleteFile filename]\<rparr>
           in case vfs w1 filename of
                None \<Rightarrow> w1
              | Some _ \<Rightarrow> w1\<lparr>vfs := (vfs w1)(filename := None)\<rparr>)"

definition cleanup :: "string list \<Rightarrow> world \<Rightarrow> world" where
  "cleanup filenames w = fold deleteFile filenames w"

section \<open>The pipeline (SlideshowProcessor.process)\<close>

text \<open>
  The errors of the pipeline, named as the specification names them, with the message the
  source puts into the \<open>Error\<close> it throws or shows.
\<close>

datatype error =
    InvalidInputCount
  | IOError
  | EngineUnavailable
  | EngineExecutionFailed
  | ValidationFailed string
  | InvalidDuration string

fun errorMessage :: "error \<Rightarrow> string" where
  "errorMessage InvalidInputCount = ''At least 2 images required''"
| "errorMessage IOError = ''Failed to load image''"
| "errorMessage EngineUnavailable = ERROR_FFMPEG_LOAD"
| "errorMessage EngineExecutionFailed = ERROR_PROCESSING"
| "errorMessage (ValidationFailed m) = m"
| "errorMessage (InvalidDuration m) = m"

text \<open>
  How a promise ends: fulfilled, rejected, or still pending when the model stops (a run
  that waits for another run's engine load).
\<close>

datatype 'a outcome = Fulfilled 'a | Rejected error | Pending

text \<open>
  The staging loop. The source skips an index whose entry is missing (\<open>if (!file) continue\<close>),
  which the element type \<open>File\<close> excludes.
\<close>

function stageLoop ::
  "env \<Rightarrow> image_file list \<Rightarrow> nat \<Rightarrow> string list \<Rightarrow> world \<Rightarrow> string list option \<times> world" where
  "stageLoop e files i inputFiles w =
     (if i < length files
      then let f = files ! i;
               filename = ''input'' @ showNat i @ ''.'' @ getExtension f
           in case writeFile e filename f w of
                (None, w1) \<Rightarrow> (None, w1)
              | (Some _, w1) \<Rightarrow>
                  (let uploadProgress =
                         20 + \<lfloor>dmul (ddiv (of_nat i) (of_nat (length files))) 20\<rfloor>;
                       w2 = setState Orchestrator [SetProgress uploadProgress] w1
                   in stageLoop e files (i + 1) (inputFiles @ [filename]) w2)
      else (Some inputFiles, w))"
  by pat_completeness auto
termination
  by (relation "measure (\<lambda>(e, files, i, inputFiles, w). length files - i)") auto

declare stageLoop.simps [simp del]

text \<open>The body of the \<open>try\<close> block; \<open>None\<close> is an exception that the \<open>catch\<close> receives.\<close>

definition tryBlock ::
  "env \<Rightarrow> processor \<Rightarrow> image_file list \<Rightarrow> nat \<Rightarrow> nat \<Rightarrow> world \<Rightarrow> bytes option \<times> world" where
  "tryBlock e P files width height w =
     (case stageLoop e files 0 [] w of
        (None, w1) \<Rightarrow> (None, w1)
      | (Some inputFiles, w1) \<Rightarrow>
          (let w2 = setState Orchestrator [SetProgress 40] w1;
               filterComplex =
                 buildFilterComplex (numberToString e) P (length inputFiles) width height
           in case execute e (ffmpegArgs inputFiles filterComplex) w2 of
                (None, w3) \<Rightarrow> (None, w3)
              | (Some _, w3) \<Rightarrow>
                  (let w4 = setState Orchestrator [SetProgress 90] w3
                   in case readFile outputFile w4 of
                        (None, w5) \<Rightarrow> (None, w5)
                      | (Some result, w5) \<Rightarrow>
                          (let w6 = cleanup (inputFiles @ [outputFile]) w5;
                               w7 = setState Orchestrator
                                      [SetProgress 100, SetProgressMessage PROCESSING_COMPLETE] w6
                           in (Some result, w7)))))"

text \<open>\<open>process(files)\<close>, called by run \<open>run\<close> with processor \<open>P\<close>.\<close>

definition process ::
  "env \<Rightarrow> processor \<Rightarrow> nat \<Rightarrow> image_file list \<Rightarrow> world \<Rightarrow> bytes outcome \<times> world" where
  "process e P run files w =
     (if length files < 2 then (Rejected InvalidInputCount, w)
      else
        let w1 = setState Orchestrator
                   [SetProcessing True, SetProgressMessage ANALYZING_IMAGES, SetProgress 5] w
        in case analyzeImages files of
             None \<Rightarrow> (Rejected IOError, w1)
           | Some (maxWidth, maxHeight) \<Rightarrow>
               (let width = maxWidth + maxWidth mod 2;
                    height = maxHeight + maxHeight mod 2;
                    w2 = setState Orchestrator
                           [SetProgressMessage LOADING_FFMPEG, SetProgress 10] w1
                in case initialize e run w2 of
                     (None, w3) \<Rightarrow> (Pending, w3)
                   | (Some ffmpegReady, w3) \<Rightarrow>
                       if \<not> ffmpegReady then (Rejected EngineUnavailable, w3)
                       else
                         (let w4 = setState Orchestrator
                                     [SetProgressMessage GENERATING_VIDEO, SetProgress 20] w3
                          in case tryBlock e P files width height w4 of
                               (None, w5) \<Rightarrow>
                                 (Rejected EngineExecutionFailed,
                                  setState Orchestrator [SetProcessing False] w5)
                             | (Some result, w5) \<Rightarrow>
                                 (Fulfilled result,
                                  setState Orchestrator [SetProcessing False] w5))))"

section \<open>The controller (SlideshowController.generate)\<close>

text \<open>
  \<open>generate\<close>, with the two inputs already read by \<open>parseFloat\<close> (\<open>None\<close> for \<open>NaN\<close>).
  \<open>Rejected err\<close> stands for \<open>showError(errorMessage err)\<close>, \<open>Fulfilled r\<close> for
  \<open>showResult(r)\<close>. The processor comes back with the durations stored into it.
\<close>

definition generate ::
  "env \<Rightarrow> processor \<Rightarrow> nat \<Rightarrow> image_file list \<Rightarrow> rat option \<Rightarrow> rat option \<Rightarrow> world
     \<Rightarrow> bytes outcome \<times> processor \<times> world" where
  "generate e P run files displayInput transitionInput w =
     (let w0 = setState Controller [SetError None] w
      in case validateSlideshowFiles files of
           Invalid m \<Rightarrow> (Rejected (ValidationFailed m), P, w0)
         | Valid \<Rightarrow>
             (let displayDuration' = jsOr displayInput DISPLAY_DURATION;
                  transitionDuration' = jsOr transitionInput TRANSITION_DURATION
              in if displayDuration' < DISPLAY_DURATION_MIN \<or> displayDuration' > DISPLAY_DURATION_MAX
                 then (Rejected (InvalidDuration
                         ''Display time must be between 0.5 and 10 seconds''), P, w0)
                 else if transitionDuration' < TRANSITION_DURATION_MIN
                         \<or> transitionDuration' > TRANSITION_DURATION_MAX
                 then (Rejected (InvalidDuration
                         ''Fade time must be between 0.1 and 3 seconds''), P, w0)
                 else
                   (let P' = P\<lparr>displayDuration := displayDuration',
                                transitionDuration := transitionDuration'\<rparr>;
                        (r, w1) = process e P' run files w0
                    in (r, P', w1))))"

section \<open>Concurrent callers of initialize\<close>

text \<open>
  JavaScript runs one caller at a time and switches only at an \<open>await\<close>. The events are: a
  caller enters \<open>initialize\<close> and runs to its first suspension; the pending
  \<open>ffmpeg.load\<close> resolves or rejects and its caller runs to the end. \<open>inFlight\<close> holds the
  callers suspended at \<open>await this.ffmpeg.load(...)\<close>.
\<close>

datatype event = Call nat | LoadSettles bool

record sched =
  current :: world
  inFlight :: "nat list"

definition step :: "env \<Rightarrow> event \<Rightarrow> sched \<Rightarrow> sched" where
  "step e ev s =
     (case ev of
        Call c \<Rightarrow>
          (case initialize_begin e c (current s) of
             (Done b, w1) \<Rightarrow> s\<lparr>current := w1\<lparr>settled := settled w1 @ [(c, b)]\<rparr>\<rparr>
           | (AwaitOther, w1) \<Rightarrow> s\<lparr>current := w1\<rparr>
           | (AwaitLoad, w1) \<Rightarrow> s\<lparr>current := w1, inFlight := inFlight s @ [c]\<rparr>)
      | LoadSettles ok \<Rightarrow>
          (case inFlight s of
             [] \<Rightarrow> s
           | c # cs \<Rightarrow>
               (let (b, w1) = initialize_finish ok (current s)
                in s\<lparr>current := w1\<lparr>settled := settled w1 @ [(c, b)]\<rparr>, inFlight := cs\<rparr>)))"

definition runEvents :: "env \<Rightarrow> event list \<Rightarrow> sched \<Rightarrow> sched" where
  "runEvents e evs s = fold (step e) evs s"

text \<open>What caller \<open>c\<close> has observed: the value its promise resolved with, if it did.\<close>

definition observed :: "sched \<Rightarrow> nat \<Rightarrow> bool option" where
  "observed s c = map_of (settled (current s)) c"

definition loadCount :: "sched \<Rightarrow> nat" where
  "loadCount s = length (filter (\<lambda>c. c = Load) (engineLog (current s)))"

section \<open>The progress bar (progress-bar.ts)\<close>

text \<open>
  The fields of the component that \<open>updateProgress\<close>, \<open>show\<close> and \<open>hide\<close> touch:
  \<open>percentage\<close> is the number in the text of the percentage element, \<open>fillWidth\<close> the
  number in the inline width of the fill element (\<open>None\<close> before the first update).
\<close>

record progress_bar =
  currentProgress :: int
  percentage :: int
  fillWidth :: "int option"
  complete :: bool
  hidden :: bool
  messageText :: string

definition render :: progress_bar where
  "render = \<lparr>currentProgress = 0, percentage = 0, fillWidth = None, complete = False,
              hidden = True, messageText = []\<rparr>"

definition updateProgress :: "int \<Rightarrow> progress_bar \<Rightarrow> progress_bar" where
  "updateProgress p b =
     (let clampedProgress = min 100 (max 0 p)
      in if clampedProgress < currentProgress b then b
         else b\<lparr>currentProgress := clampedProgress,
                fillWidth := Some clampedProgress,
                percentage := clampedProgress,
                complete := (clampedProgress \<ge> 100)\<rparr>)"

definition updateMessage :: "string \<Rightarrow> progress_bar \<Rightarrow> progress_bar" where
  "updateMessage m b = b\<lparr>messageText := m\<rparr>"

definition showBar :: "progress_bar \<Rightarrow> progress_bar" where
  "showBar b = b\<lparr>hidden := False\<rparr>"

definition hide :: "progress_bar \<Rightarrow> progress_bar" where
  "hide b = updateMessage [] (updateProgress 0 (b\<lparr>hidden := True, currentProgress := 0\<rparr>))"

text \<open>What reaches the component: state notifications and the timers that call \<open>hide\<close>.\<close>

datatype bar_event = ProgressChanged int | MessageChanged string | Show | Hide

fun barStep :: "bar_event \<Rightarrow> progress_bar \<Rightarrow> progress_bar" where
  "barStep (ProgressChanged p) b = updateProgress p b"
| "barStep (MessageChanged m) b = updateMessage m b"
| "barStep Show b = showBar b"
| "barStep Hide b = hide b"

definition barAfter :: "bar_event list \<Rightarrow> progress_bar" where
  "barAfter evs = fold barStep evs render"

text \<open>The invariant of the component: the text shows \<open>currentProgress\<close>, a percentage.\<close>

definition barInv :: "progress_bar \<Rightarrow> bool" where
  "barInv b = (currentProgress b = percentage b \<and> 0 \<le> percentage b \<and> percentage b \<le> 100)"

section \<open>Concrete runs\<close>

text \<open>Two valid images, one image without a dot in its name, and three environments.\<close>

definition imageA :: image_file where
  "imageA = \<lparr>fileName = ''a.JPG'', fileType = ''image/jpeg'', fileSize = 3,
              fileData = [1, 2, 3], naturalSize = Some (100, 200)\<rparr>"

definition imageB :: image_file where
  "imageB = \<lparr>fileName = ''b.png'', fileType = ''image/png'', fileSize = 2,
              fileData = [4, 5], naturalSize = Some (301, 100)\<rparr>"

definition imageNoDot :: image_file where
  "imageNoDot = \<lparr>fileName = ''holiday'', fileType = ''image/jpeg'', fileSize = 1,
                  fileData = [6], naturalSize = Some (10, 10)\<rparr>"

text \<open>
  An engine that loads, accepts every write, and writes the output file on \<open>exec\<close>, in a
  browser that prints every number with two decimals.
\<close>

definition goodEnv :: env where
  "goodEnv = \<lparr>numberToString = toFixed2 (\<lambda>x. []), hasSharedArrayBuffer = True,
               loadSucceeds = True, writeFileFails = (\<lambda>n. False),
               execResult = (\<lambda>args fs. Some (fs(outputFile \<mapsto> [7, 8, 9]))),
               execProgress = []\<rparr>"



text \<open>A browser without \<open>SharedArrayBuffer\<close>.\<close>

definition noSabEnv :: env where
  "noSabEnv = goodEnv\<lparr>hasSharedArrayBuffer := False\<rparr>"

section \<open>Notions used to state the progress property\<close>







section \<open>Properties of double rounding\<close>

lemma two_powi_add1: "(2 :: rat) powi (k + 1) = 2 * 2 powi k"
  by (rule power_int_add_1') simp

lemma ilog2_bounds:
  assumes "0 < x"
  shows "2 powi ilog2 x \<le> x \<and> x < 2 powi (ilog2 x + 1)"
proof (cases "1 \<le> x")
  case True
  define n where "n = \<lfloor>x\<rfloor>"
  have n: "0 < n" using True by (simp add: n_def)
  define b where "b = bitlen n"
  from bitlen_bounds [OF n] have bb: "2 ^ nat (b - 1) \<le> n" "n < 2 ^ nat b"
    by (simp_all add: b_def)
  have b1: "1 \<le> b"
  proof (rule ccontr)
    assume "\<not> 1 \<le> b"
    then have "nat b = 0" by simp
    with bb(2) n show False by simp
  qed
  have k: "ilog2 x = b - 1" using True by (simp add: ilog2_def n_def b_def)
  have "(2 :: rat) ^ nat (b - 1) = of_int (2 ^ nat (b - 1))" by simp
  also have "\<dots> \<le> of_int n" using bb(1) by (simp only: of_int_le_iff)
  also have "\<dots> \<le> x" by (simp add: n_def)
  finally have lo: "(2 :: rat) ^ nat (b - 1) \<le> x" .
  have "n + 1 \<le> 2 ^ nat b" using bb(2) by simp
  then have "(of_int (n + 1) :: rat) \<le> of_int (2 ^ nat b)" by (simp only: of_int_le_iff)
  then have "(of_int n + 1 :: rat) \<le> 2 ^ nat b" by simp
  moreover have "x < of_int n + 1" unfolding n_def by linarith
  ultimately have hi: "x < 2 ^ nat b" by linarith
  from lo hi b1 show ?thesis
    by (simp add: k power_int_nonneg_exp)
next
  case False
  define y where "y = 1 / x"
  have y1: "1 < y" using assms False by (simp add: y_def)
  define n where "n = \<lfloor>y\<rfloor>"
  have n: "0 < n" using y1 by (simp add: n_def)
  define b where "b = bitlen n"
  define j where "j = b - 1"
  from bitlen_bounds [OF n] have bb: "2 ^ nat (b - 1) \<le> n" "n < 2 ^ nat b"
    by (simp_all add: b_def)
  have b1: "1 \<le> b"
  proof (rule ccontr)
    assume "\<not> 1 \<le> b"
    then have "nat b = 0" by simp
    with bb(2) n show False by simp
  qed
  then have j0: "0 \<le> j" by (simp add: j_def)
  have nb: "nat b = Suc (nat j)" using b1 by (simp add: j_def Suc_nat_eq_nat_zadd1)
  have "(2 :: rat) ^ nat j = of_int (2 ^ nat (b - 1))" by (simp add: j_def)
  also have "\<dots> \<le> of_int n" using bb(1) by (simp only: of_int_le_iff)
  also have "\<dots> \<le> y" by (simp add: n_def)
  finally have lo: "(2 :: rat) ^ nat j \<le> y" .
  have "n + 1 \<le> 2 ^ nat b" using bb(2) by simp
  then have "(of_int (n + 1) :: rat) \<le> of_int (2 ^ nat b)" by (simp only: of_int_le_iff)
  then have "(of_int n + 1 :: rat) \<le> 2 ^ nat b" by simp
  moreover have "y < of_int n + 1" unfolding n_def by linarith
  ultimately have hi: "y < 2 * 2 ^ nat j" by (simp add: nb)
  define p :: rat where "p = 2 ^ nat j"
  have p: "0 < p" by (simp add: p_def)
  have xy: "x * y = 1" using assms by (simp add: y_def)
  have xp_le: "x * p \<le> 1"
  proof -
    have "x * p \<le> x * y" using lo assms by (simp add: p_def mult_left_mono)
    with xy show ?thesis by simp
  qed
  have xp_gt: "1 < x * (2 * p)"
  proof -
    have "x * y < x * (2 * p)" using hi assms by (simp add: p_def mult_strict_left_mono)
    with xy show ?thesis by simp
  qed
  have neg: "(2 :: rat) powi (- j) = 1 / p"
    using j0 by (simp add: power_int_minus_divide power_int_nonneg_exp p_def)
  have neg1: "(2 :: rat) powi (- j - 1) = 1 / (2 * p)"
  proof -
    have "- j - 1 = - (j + 1)" by simp
    then have "(2 :: rat) powi (- j - 1) = 2 powi (- (j + 1))" by (simp only:)
    also have "\<dots> = 1 / 2 powi (j + 1)" by (rule power_int_minus_divide)
    also have "\<dots> = 1 / (2 * p)"
    proof -
      have "(2 :: rat) powi (j + 1) = 2 * 2 powi j" by (rule two_powi_add1)
      also have "\<dots> = 2 * p" using j0 by (simp add: p_def power_int_nonneg_exp)
      finally show ?thesis by simp
    qed
    finally show ?thesis .
  qed
  have k: "ilog2 x = (if x * p = 1 then - j else - j - 1)"
    using False by (simp add: ilog2_def Let_def y_def n_def b_def j_def p_def)
  show ?thesis
  proof (cases "x * p = 1")
    case True
    then have xe: "x = 1 / p" using p by (simp add: field_simps)
    from True have kx: "ilog2 x = - j" by (simp add: k)
    have t: "(2 :: rat) powi (- j + 1) = 2 / p" using two_powi_add1 [of "- j"] neg by simp
    have a: "2 powi (- j) \<le> x" unfolding neg xe by simp
    have "1 / p < 2 / p" using p by (simp add: divide_strict_right_mono)
    then have b: "x < 2 powi (- j + 1)" unfolding t xe .
    show ?thesis unfolding kx using a b by blast
  next
    case False
    with xp_le have "x * p < 1" by simp
    then have a: "x < 1 / p" using p by (simp add: field_simps)
    from xp_gt have b: "1 / (2 * p) \<le> x" using p by (simp add: field_simps)
    from False have kx: "ilog2 x = - j - 1" by (simp add: k)
    have "- j - 1 + 1 = - j" by simp
    then have c: "(2 :: rat) powi (- j - 1 + 1) = 1 / p" by (simp only: neg)
    show ?thesis unfolding kx c neg1 using a b by blast
  qed
qed


lemma roundHalfEven_cases:
  "roundHalfEven y = \<lfloor>y\<rfloor> \<and> y - of_int \<lfloor>y\<rfloor> \<le> 1 / 2 \<or>
   roundHalfEven y = \<lfloor>y\<rfloor> + 1 \<and> 1 / 2 \<le> y - of_int \<lfloor>y\<rfloor>"
  by (auto simp: roundHalfEven_def Let_def)

lemma roundHalfEven_error: "\<bar>of_int (roundHalfEven y) - y\<bar> \<le> 1 / 2"
proof -
  have "of_int \<lfloor>y\<rfloor> \<le> y" "y < of_int \<lfloor>y\<rfloor> + 1" by linarith+
  with roundHalfEven_cases [of y] show ?thesis by auto
qed

lemma roundHalfEven_of_int: "roundHalfEven (of_int n) = n"
  by (simp add: roundHalfEven_def)

lemma roundHalfEven_mono:
  assumes "y \<le> z"
  shows "roundHalfEven y \<le> roundHalfEven z"
proof (cases "\<lfloor>y\<rfloor> = \<lfloor>z\<rfloor>")
  case True
  with assms have "y - of_int \<lfloor>y\<rfloor> \<le> z - of_int \<lfloor>z\<rfloor>" by simp
  with True show ?thesis
    by (auto simp: roundHalfEven_def Let_def)
next
  case False
  with assms have "\<lfloor>y\<rfloor> < \<lfloor>z\<rfloor>" using floor_mono [of y z] by linarith
  moreover have "roundHalfEven y \<le> \<lfloor>y\<rfloor> + 1" using roundHalfEven_cases [of y] by auto
  moreover have "\<lfloor>z\<rfloor> \<le> roundHalfEven z" using roundHalfEven_cases [of z] by auto
  ultimately show ?thesis by linarith
qed

text \<open>The scaled significand of a positive number lies between \<open>2^52\<close> and \<open>2^53\<close>.\<close>

lemma scaled_bounds:
  assumes "0 < x"
  shows "2 ^ 52 \<le> x / 2 powi (ilog2 x - 52) \<and> x / 2 powi (ilog2 x - 52) < 2 ^ 53"
proof -
  define k where "k = ilog2 x"
  define s :: rat where "s = 2 powi (k - 52)"
  have s: "0 < s" by (simp add: s_def)
  have "(2 :: rat) powi k = 2 powi ((k - 52) + 52)" by simp
  also have "\<dots> = 2 powi (k - 52) * 2 powi 52" by (rule power_int_add) simp
  finally have pk: "(2 :: rat) powi k = s * 2 ^ 52" by (simp add: s_def)
  have "(2 :: rat) powi (k + 1) = 2 * 2 powi k" by (rule two_powi_add1)
  with pk have pk1: "(2 :: rat) powi (k + 1) = s * 2 ^ 53" by simp
  from ilog2_bounds [OF assms] have "s * 2 ^ 52 \<le> x" "x < s * 2 ^ 53"
    by (simp_all only: k_def [symmetric] pk pk1)
  with s have "2 ^ 52 \<le> x / s" "x / s < 2 ^ 53"
    by (simp_all add: field_simps)
  then show ?thesis by (simp only: s_def k_def)
qed

lemma roundDouble_pos:
  "0 < x \<Longrightarrow> roundDouble x =
     of_int (roundHalfEven (x / 2 powi (ilog2 x - 52))) * 2 powi (ilog2 x - 52)"
  by (simp add: roundDouble_def Let_def)



text \<open>A positive number and its rounding lie in the same binade, ends included.\<close>

lemma roundDouble_binade:
  assumes "0 < x"
  shows "2 powi ilog2 x \<le> roundDouble x \<and> roundDouble x \<le> 2 powi (ilog2 x + 1)"
proof -
  define k where "k = ilog2 x"
  define s :: rat where "s = 2 powi (k - 52)"
  define y where "y = x / s"
  define m where "m = roundHalfEven y"
  have s: "0 < s" by (simp add: s_def)
  have "(2 :: rat) powi k = 2 powi ((k - 52) + 52)" by simp
  also have "\<dots> = 2 powi (k - 52) * 2 powi 52" by (rule power_int_add) simp
  finally have pk: "(2 :: rat) powi k = s * 2 ^ 52" by (simp add: s_def)
  have "(2 :: rat) powi (k + 1) = 2 * 2 powi k" by (rule two_powi_add1)
  with pk have pk1: "(2 :: rat) powi (k + 1) = s * 2 ^ 53" by simp
  from scaled_bounds [OF assms] have y: "2 ^ 52 \<le> y" "y < 2 ^ 53"
    by (simp_all add: y_def s_def k_def)
  have "roundHalfEven (of_int (2 ^ 52)) \<le> roundHalfEven y"
    by (rule roundHalfEven_mono) (use y(1) in simp)
  then have m1: "2 ^ 52 \<le> m" by (simp only: roundHalfEven_of_int m_def)
  have "roundHalfEven y \<le> roundHalfEven (of_int (2 ^ 53))"
    by (rule roundHalfEven_mono) (use y(2) in simp)
  then have m2: "m \<le> 2 ^ 53" by (simp only: roundHalfEven_of_int m_def)
  have r: "roundDouble x = of_int m * s"
    using assms by (simp add: roundDouble_pos m_def y_def s_def k_def)
  have "(of_int (2 ^ 52) :: rat) \<le> of_int m" using m1 by (simp only: of_int_le_iff)
  then have "s * 2 ^ 52 \<le> of_int m * s" using s by simp
  moreover have "(of_int m :: rat) \<le> of_int (2 ^ 53)" using m2 by (simp only: of_int_le_iff)
  then have "of_int m * s \<le> s * 2 ^ 53" using s by simp
  ultimately show ?thesis
    by (simp only: r k_def [symmetric] pk pk1)
qed

lemma roundDouble_pos_gt: "0 < x \<Longrightarrow> 0 < roundDouble x"
proof -
  assume x: "0 < x"
  have "(0 :: rat) < 2 powi ilog2 x" by simp
  with roundDouble_binade [OF x] show ?thesis by linarith
qed

text \<open>Rounding moves a number by at most half a unit in the last place.\<close>

lemma roundDouble_error_pos:
  assumes "0 < x"
  shows "\<bar>roundDouble x - x\<bar> \<le> x / 2 ^ 53"
proof -
  define k where "k = ilog2 x"
  define s :: rat where "s = 2 powi (k - 52)"
  define y where "y = x / s"
  define m where "m = roundHalfEven y"
  have s: "0 < s" by (simp add: s_def)
  have xs: "x = y * s" using s by (simp add: y_def)
  have r: "roundDouble x = of_int m * s"
    using assms by (simp add: roundDouble_pos m_def y_def s_def k_def)
  have "\<bar>of_int m - y\<bar> \<le> 1 / 2" unfolding m_def by (rule roundHalfEven_error)
  then have "\<bar>of_int m - y\<bar> * s \<le> 1 / 2 * s" using s by (simp add: mult_right_mono)
  moreover have "\<bar>of_int m * s - y * s\<bar> = \<bar>of_int m - y\<bar> * s"
    using s by (simp add: abs_mult flip: left_diff_distrib)
  ultimately have e: "\<bar>roundDouble x - x\<bar> \<le> s / 2" by (simp add: r xs [symmetric])
  from scaled_bounds [OF assms] have "2 ^ 52 \<le> y" by (simp add: y_def s_def k_def)
  then have "2 ^ 52 * s \<le> y * s" using s by (simp add: mult_right_mono)
  then have "s / 2 \<le> x / 2 ^ 53" by (simp add: xs [symmetric])
  with e show ?thesis by linarith
qed










section \<open>Properties of the filter-graph compiler\<close>

lemma digitChar_val: "d < 10 \<Longrightarrow> (of_char (digitChar d) :: nat) = 48 + d"
  by (simp add: digitChar_def)

lemma isDigit_digitChar: "d < 10 \<Longrightarrow> isDigit (digitChar d)"
  by (simp add: isDigit_def digitChar_val)

lemma digitsVal_snoc: "digitsVal (s @ [c]) = 10 * digitsVal s + (of_char c - 48)"
  by (simp add: digitsVal_def)

lemma digitsVal_showNat: "digitsVal (showNat n) = n"
proof (induction n rule: showNat.induct)
  case (1 n)
  show ?case
  proof (cases "n < 10")
    case True
    then show ?thesis
      by (subst showNat.simps) (simp add: digitsVal_def digitChar_val)
  next
    case False
    have "digitsVal (showNat n) = 10 * digitsVal (showNat (n div 10)) + (of_char (digitChar (n mod 10)) - 48)"
      using False by (subst showNat.simps) (simp add: digitsVal_snoc)
    also have "\<dots> = 10 * (n div 10) + n mod 10"
      using "1.IH" [OF False] by (simp add: digitChar_val)
    finally show ?thesis by simp
  qed
qed

lemma showNat_inj: "showNat n = showNat m \<Longrightarrow> n = m"
  by (metis digitsVal_showNat)

lemma showNat_digits: "c \<in> set (showNat n) \<Longrightarrow> isDigit c"
proof (induction n rule: showNat.induct)
  case (1 n)
  show ?case
  proof (cases "n < 10")
    case True
    with "1.prems" show ?thesis
      by (subst (asm) showNat.simps) (simp add: isDigit_digitChar)
  next
    case False
    with "1.prems" have "c \<in> set (showNat (n div 10)) \<or> c = digitChar (n mod 10)"
      by (subst (asm) showNat.simps) auto
    then show ?thesis
      using "1.IH" [OF False] by (auto simp: isDigit_digitChar)
  qed
qed

lemma showNat_nonempty: "showNat n \<noteq> []"
  by (subst showNat.simps) simp

lemma transformLoop_eq:
  "transformLoop numStr P i n w h fs =
     fs @ map (\<lambda>j. transformStatement numStr P j n w h) [i..<n]"
proof (induction numStr P i n w h fs rule: transformLoop.induct)
  case (1 numStr P i n w h fs)
  show ?case
  proof (cases "i < n")
    case True
    then show ?thesis
      using "1.IH" by (subst transformLoop.simps) (simp add: upt_conv_Cons)
  next
    case False
    then show ?thesis by (subst transformLoop.simps) simp
  qed
qed

lemma xfadeLoop_eq:
  "xfadeLoop numStr P i n (offsetAt P i) fs =
     fs @ map (\<lambda>j. xfadeStatement numStr P j n (offsetAt P j)) [i..<n - 1]"
proof (induction "n - i" arbitrary: i fs)
  case 0
  then show ?case by (subst xfadeLoop.simps) simp
next
  case (Suc k)
  show ?case
  proof (cases "int i < int n - 1")
    case True
    then have lt: "i < n - 1" by linarith
    have "k = n - (i + 1)" using Suc.hyps(2) by simp
    from Suc.hyps(1) [OF this]
    have IH: "\<And>fs. xfadeLoop numStr P (i + 1) n (offsetAt P (i + 1)) fs =
                fs @ map (\<lambda>j. xfadeStatement numStr P j n (offsetAt P j)) [i + 1..<n - 1]" .
    show ?thesis
      using True lt IH by (subst xfadeLoop.simps) (simp add: upt_conv_Cons)
  next
    case False
    then have "\<not> i < n - 1" by linarith
    with False show ?thesis by (subst xfadeLoop.simps) simp
  qed
qed

lemma buildFilters_eq:
  "buildFilters numStr P n w h =
     map (\<lambda>j. transformStatement numStr P j n w h) [0..<n] @
     map (\<lambda>j. xfadeStatement numStr P j n (offsetAt P j)) [0..<n - 1]"
  using xfadeLoop_eq [of numStr P 0 n] by (simp add: buildFilters_def transformLoop_eq)

lemma vlabel_distinct: "distinct (map (\<lambda>i. ''v'' @ showNat i) [0..<N])"
  by (auto simp: distinct_map inj_on_def dest: showNat_inj)

lemma isDigit_o: "\<not> isDigit CHR ''o''" by (simp add: isDigit_def)
lemma isDigit_f: "\<not> isDigit CHR ''f''" by (simp add: isDigit_def)

lemma showNat_hd: "\<exists>c cs. showNat n = c # cs \<and> isDigit c"
  using showNat_nonempty [of n] showNat_digits [of _ n]
  by (cases "showNat n") auto

lemma v_ne_vout: "''v'' @ showNat i \<noteq> ''vout'' @ showNat j"
  using showNat_hd [of i] isDigit_o by auto

lemma v_ne_vfinal: "''v'' @ showNat i \<noteq> ''vfinal''"
  using showNat_hd [of i] isDigit_f by auto

lemma vout_ne_vfinal: "''vout'' @ showNat i \<noteq> ''vfinal''"
  by simp

lemma outputLabel_inj:
  "Suc i < N \<Longrightarrow> Suc j < N \<Longrightarrow> outputLabel i N = outputLabel j N \<Longrightarrow> i = j"
  by (auto simp: outputLabel_def split: if_splits dest: showNat_inj)

lemma outputs_distinct:
  "distinct (map (\<lambda>i. ''v'' @ showNat i) [0..<N] @ map (\<lambda>i. outputLabel i N) [0..<N - 1])"
proof -
  have "i = j" if "i < N - 1" "j < N - 1" "outputLabel i N = outputLabel j N" for i j
    using that outputLabel_inj [of i N j] by simp
  then have "distinct (map (\<lambda>i. outputLabel i N) [0..<N - 1])"
    unfolding distinct_map inj_on_def by auto
  moreover have "''v'' @ showNat i \<noteq> outputLabel j N" for i j
    using v_ne_vout [of i "j + 1"] v_ne_vfinal [of i] by (simp add: outputLabel_def)
  ultimately show ?thesis
    using vlabel_distinct [of N] by (auto simp del: append.simps)
qed

subsection \<open>The running offset\<close>

text \<open>
  The running offset: with \<open>u = 2^-53\<close>, as long as \<open>2 i + 3 \<le> 2^53\<close> the offset stays
  positive and below \<open>2 (i + 1) D\<close>, each addition increases it, and it is away from
  \<open>(i + 1) D\<close> by at most \<open>i (i + 2) D u\<close>.
\<close>

lemma round_sum_bounds:
  assumes "0 < z" and "z \<le> c * d" and "0 < d" and "c \<le> 2 ^ 53 - 1"
  shows "\<bar>roundDouble z - z\<bar> < d" and "\<bar>roundDouble z - z\<bar> \<le> c * d / 2 ^ 53"
proof -
  have e: "\<bar>roundDouble z - z\<bar> \<le> z / 2 ^ 53"
    using roundDouble_error_pos [OF assms(1)] .
  have "z / 2 ^ 53 \<le> c * d / 2 ^ 53" using assms(2) by (simp add: divide_right_mono)
  with e show b: "\<bar>roundDouble z - z\<bar> \<le> c * d / 2 ^ 53" by linarith
  have "c * d \<le> (2 ^ 53 - 1) * d" using assms(3,4) by (simp add: mult_right_mono)
  then have "c * d / 2 ^ 53 \<le> (2 ^ 53 - 1) * d / 2 ^ 53" by (simp add: divide_right_mono)
  also have "\<dots> < d" using assms(3) by (simp add: field_simps)
  finally show "\<bar>roundDouble z - z\<bar> < d" using b by linarith
qed

lemma offsetAt_bounds:
  assumes "0 < displayDuration P" and "i \<le> 2 ^ 50"
  shows "0 < offsetAt P i \<and> offsetAt P i \<le> 2 * (of_nat i + 1) * displayDuration P"
  using assms(2)
proof (induction i)
  case 0
  then show ?case using assms(1) by simp
next
  case (Suc i)
  define D where "D = displayDuration P"
  define z where "z = offsetAt P i + D"
  define c :: rat where "c = 2 * of_nat i + 3"
  have D: "0 < D" using assms(1) by (simp add: D_def)
  from Suc have IH: "0 < offsetAt P i" "offsetAt P i \<le> 2 * (of_nat i + 1) * D"
    by (simp_all add: D_def)
  have z: "0 < z" using IH(1) D by (simp add: z_def)
  have zc: "z \<le> c * D" using IH(2) by (simp add: z_def c_def algebra_simps)
  have "(of_nat i :: rat) \<le> of_nat (2 ^ 50)" using Suc.prems by (simp only: of_nat_le_iff)
  then have ci: "c \<le> 2 ^ 53 - 1" by (simp add: c_def)
  from round_sum_bounds(1) [OF z zc D ci] have "roundDouble z < z + D" by linarith
  with zc have "roundDouble z \<le> c * D + D" by linarith
  then have "roundDouble z \<le> 2 * (of_nat (Suc i) + 1) * D" by (simp add: c_def algebra_simps)
  moreover have "0 < roundDouble z" using z by (rule roundDouble_pos_gt)
  ultimately show ?case by (simp add: dadd_def z_def D_def)
qed

lemma offsetAt_step_increases:
  assumes "0 < displayDuration P" and "i \<le> 2 ^ 50"
  shows "offsetAt P i < offsetAt P (Suc i)"
proof -
  define D where "D = displayDuration P"
  define z where "z = offsetAt P i + D"
  define c :: rat where "c = 2 * of_nat i + 3"
  have D: "0 < D" using assms(1) by (simp add: D_def)
  from offsetAt_bounds [OF assms] have b: "0 < offsetAt P i" "offsetAt P i \<le> 2 * (of_nat i + 1) * D"
    by (simp_all add: D_def)
  have z: "0 < z" using b(1) D by (simp add: z_def)
  have zc: "z \<le> c * D" using b(2) by (simp add: z_def c_def algebra_simps)
  have "(of_nat i :: rat) \<le> of_nat (2 ^ 50)" using assms(2) by (simp only: of_nat_le_iff)
  then have ci: "c \<le> 2 ^ 53 - 1" by (simp add: c_def)
  from round_sum_bounds(1) [OF z zc D ci] have "z - D < roundDouble z" by linarith
  then show ?thesis by (simp add: dadd_def z_def D_def)
qed

lemma offsetAt_strict_mono:
  assumes "0 < displayDuration P" and "i < j" and "j \<le> 2 ^ 50"
  shows "offsetAt P i < offsetAt P j"
  using assms(2,3)
proof (induction j)
  case 0
  then show ?case by simp
next
  case (Suc j)
  then have j: "j \<le> 2 ^ 50" by simp
  from offsetAt_step_increases [OF assms(1) j] have s: "offsetAt P j < offsetAt P (Suc j)" .
  show ?case
  proof (cases "i = j")
    case True
    with s show ?thesis by simp
  next
    case False
    with Suc.prems have "i < j" by simp
    from Suc.IH [OF this j] s show ?thesis by linarith
  qed
qed

lemma offsetAt_error:
  assumes "0 < displayDuration P" and "i \<le> 2 ^ 50"
  shows "\<bar>offsetAt P i - (of_nat i + 1) * displayDuration P\<bar>
           \<le> of_nat i * (of_nat i + 2) * displayDuration P / 2 ^ 53"
  using assms(2)
proof (induction i)
  case 0
  show ?case by simp
next
  case (Suc i)
  define D where "D = displayDuration P"
  define z where "z = offsetAt P i + D"
  define c :: rat where "c = 2 * of_nat i + 3"
  define n :: rat where "n = of_nat i"
  have D: "0 < D" using assms(1) by (simp add: D_def)
  from Suc have i: "i \<le> 2 ^ 50" by simp
  from Suc.IH [OF i] have IH: "\<bar>offsetAt P i - (n + 1) * D\<bar> \<le> n * (n + 2) * D / 2 ^ 53"
    by (simp add: D_def n_def)
  from offsetAt_bounds [OF assms(1) i] have b: "0 < offsetAt P i" "offsetAt P i \<le> 2 * (n + 1) * D"
    by (simp_all add: D_def n_def)
  have z: "0 < z" using b(1) D by (simp add: z_def)
  have zc: "z \<le> c * D" using b(2) by (simp add: z_def c_def n_def algebra_simps)
  have "(of_nat i :: rat) \<le> of_nat (2 ^ 50)" using i by (simp only: of_nat_le_iff)
  then have ci: "c \<le> 2 ^ 53 - 1" by (simp add: c_def)
  from round_sum_bounds(2) [OF z zc D ci] have r: "\<bar>roundDouble z - z\<bar> \<le> c * D / 2 ^ 53" .
  have "z - (n + 2) * D = offsetAt P i - (n + 1) * D" by (simp add: z_def algebra_simps)
  with IH have "\<bar>z - (n + 2) * D\<bar> \<le> n * (n + 2) * D / 2 ^ 53" by simp
  with r have "\<bar>roundDouble z - (n + 2) * D\<bar> \<le> c * D / 2 ^ 53 + n * (n + 2) * D / 2 ^ 53"
    by linarith
  also have "c * D / 2 ^ 53 + n * (n + 2) * D / 2 ^ 53 = (n + 1) * (n + 3) * D / 2 ^ 53"
    by (simp add: c_def n_def field_simps)
  finally have "\<bar>roundDouble z - (n + 2) * D\<bar> \<le> (n + 1) * (n + 3) * D / 2 ^ 53" .
  moreover have "of_nat (Suc i) = n + 1" by (simp add: n_def)
  ultimately show ?case
    by (simp add: dadd_def z_def D_def [symmetric] algebra_simps)
qed

subsection \<open>Serialization\<close>

lemma digitsVal_pad2: "k < 100 \<Longrightarrow> digitsVal (pad2 k) = k"
proof -
  assume k: "k < 100"
  then have "k div 10 < 10" "k mod 10 < 10" by auto
  then show ?thesis
    by (simp add: pad2_def digitsVal_def digitChar_val)
qed

lemma pad2_digits: "c \<in> set (pad2 k) \<Longrightarrow> k < 100 \<Longrightarrow> isDigit c"
proof -
  assume c: "c \<in> set (pad2 k)" and k: "k < 100"
  then have "k div 10 < 10" "k mod 10 < 10" by auto
  with c show ?thesis by (auto simp: pad2_def isDigit_digitChar)
qed

lemma toFixed2_shape:
  assumes "0 \<le> x" and "x < 10 ^ 21"
  shows "\<exists>whole frac. toFixed2 numStr x = whole @ ''.'' @ frac \<and> whole \<noteq> [] \<and> length frac = 2
           \<and> (\<forall>c \<in> set (whole @ frac). isDigit c)
           \<and> \<bar>x - of_nat (digitsVal whole * 100 + digitsVal frac) / 100\<bar> \<le> 1 / 200"
proof -
  define n where "n = nat \<lfloor>x * 100 + 1 / 2\<rfloor>"
  define whole where "whole = showNat (n div 100)"
  define frac where "frac = pad2 (n mod 100)"
  have tf: "toFixed2 numStr x = whole @ ''.'' @ frac"
    using assms by (simp add: toFixed2_def Let_def n_def whole_def frac_def abs_of_nonneg)
  have val: "digitsVal whole * 100 + digitsVal frac = n"
    by (simp add: whole_def frac_def digitsVal_showNat digitsVal_pad2)
  define f :: rat where "f = of_int \<lfloor>x * 100 + 1 / 2\<rfloor>"
  have fl: "0 \<le> \<lfloor>x * 100 + 1 / 2\<rfloor>" using assms(1) by simp
  then have nf: "(of_nat n :: rat) = f"
    by (simp add: n_def f_def)
  have "f \<le> x * 100 + 1 / 2" "x * 100 + 1 / 2 < f + 1"
    unfolding f_def by linarith+
  then have "\<bar>x - f / 100\<bar> \<le> 1 / 200" by linarith
  then have "\<bar>x - of_nat n / 100\<bar> \<le> 1 / 200" by (simp only: nf)
  moreover have "\<forall>c \<in> set (whole @ frac). isDigit c"
    by (auto simp: whole_def frac_def dest: showNat_digits pad2_digits)
  moreover have "whole \<noteq> []" by (simp add: whole_def showNat_nonempty)
  moreover have "length frac = 2" by (simp add: frac_def pad2_def)
  ultimately show ?thesis using tf val by blast
qed

lemma join_concat:
  "xs \<noteq> [] \<Longrightarrow> join sep xs = concat (map (\<lambda>s. s @ sep) (butlast xs)) @ last xs"
  by (induction sep xs rule: join.induct) simp_all

subsection \<open>Slide durations\<close>




subsection \<open>Shape of the compiled graph\<close>

text \<open>
  Claim C2. For \<open>N \<ge> 2\<close> inputs the compiled graph is \<open>N\<close> transform statements, statement
  \<open>i\<close> reading input \<open>i\<close> and emitting \<open>v\<^sub>i\<close>, followed by \<open>N - 1\<close> crossfade statements;
  crossfade \<open>0\<close> consumes \<open>v\<^sub>0\<close>, crossfade \<open>i > 0\<close> consumes the output of crossfade
  \<open>i - 1\<close>, each together with \<open>v\<^sub>i\<^sub>+\<^sub>1\<close>; the last crossfade emits \<open>vfinal\<close>, the label
  the argument vector maps; all emitted labels are distinct. The text \<open>buildFilterComplex\<close>
  returns is these statements in this order, each but the last followed by a semicolon,
  and it is the argument after \<open>-filter_complex\<close>.
\<close>

theorem buildFilterComplex_topology:
  "2 \<le> N \<Longrightarrow>
     length (buildFilters numStr P N width height) = N + (N - 1) \<and>
     (\<forall>i < N. \<exists>body. buildFilters numStr P N width height ! i =
         ''['' @ showNat i @ '':v]'' @ body @ ''[v'' @ showNat i @ '']'') \<and>
     (\<forall>i < N - 1. buildFilters numStr P N width height ! (N + i) =
         ''['' @ inputA i @ '']['' @ inputB i @ '']xfade=transition=fade:duration=''
           @ numStr (transitionDuration P) @ '':offset='' @ toFixed2 numStr (offsetAt P i)
           @ ''['' @ outputLabel i N @ '']'') \<and>
     inputA 0 = ''v'' @ showNat 0 \<and>
     (\<forall>i. 0 < i \<and> i < N - 1 \<longrightarrow> inputA i = outputLabel (i - 1) N) \<and>
     (\<forall>i. inputB i = ''v'' @ showNat (i + 1)) \<and>
     outputLabel (N - 2) N = ''vfinal'' \<and>
     distinct (map (\<lambda>i. ''v'' @ showNat i) [0..<N] @ map (\<lambda>i. outputLabel i N) [0..<N - 1]) \<and>
     buildFilterComplex numStr P N width height =
       concat (map (\<lambda>s. s @ '';'') (butlast (buildFilters numStr P N width height)))
         @ last (buildFilters numStr P N width height) \<and>
     ffmpegArgs inputFiles (buildFilterComplex numStr P N width height) =
       concat (map (\<lambda>f. [''-i'', f]) inputFiles) @
       [''-filter_complex'',
        concat (map (\<lambda>s. s @ '';'') (butlast (buildFilters numStr P N width height)))
          @ last (buildFilters numStr P N width height),
        ''-map'', ''['' @ outputLabel (N - 2) N @ '']''] @
       [''-c:v'', ''libx264'', ''-pix_fmt'', ''yuv420p'', ''-preset'', ''fast'',
        ''-movflags'', ''+faststart'', ''-y'', ''slideshow.mp4'']"
proof -
  assume N: "2 \<le> N"
  have len: "length (buildFilters numStr P N width height) = N + (N - 1)"
    by (simp add: buildFilters_eq)
  have tr: "\<forall>i < N. \<exists>body. buildFilters numStr P N width height ! i =
         ''['' @ showNat i @ '':v]'' @ body @ ''[v'' @ showNat i @ '']''"
  proof (intro allI impI)
    fix i assume "i < N"
    then have "buildFilters numStr P N width height ! i = transformStatement numStr P i N width height"
      by (simp add: buildFilters_eq nth_append)
    then show "\<exists>body. buildFilters numStr P N width height ! i =
         ''['' @ showNat i @ '':v]'' @ body @ ''[v'' @ showNat i @ '']''"
      by (simp add: transformStatement_def Let_def)
  qed
  have xf: "\<forall>i < N - 1. buildFilters numStr P N width height ! (N + i) =
         ''['' @ inputA i @ '']['' @ inputB i @ '']xfade=transition=fade:duration=''
           @ numStr (transitionDuration P) @ '':offset='' @ toFixed2 numStr (offsetAt P i)
           @ ''['' @ outputLabel i N @ '']''"
    by (simp add: buildFilters_eq nth_append xfadeStatement_def)
  have a0: "inputA 0 = ''v'' @ showNat 0" by (simp add: inputA_def)
  have chain: "\<forall>i. 0 < i \<and> i < N - 1 \<longrightarrow> inputA i = outputLabel (i - 1) N"
  proof (intro allI impI)
    fix i assume i: "0 < i \<and> i < N - 1"
    then have "int (i - 1) \<noteq> int N - 2" by linarith
    with i show "inputA i = outputLabel (i - 1) N"
      by (simp add: inputA_def outputLabel_def)
  qed
  have b: "\<forall>i. inputB i = ''v'' @ showNat (i + 1)" by (simp add: inputB_def)
  have "int (N - 2) = int N - 2" using N by simp
  then have fin: "outputLabel (N - 2) N = ''vfinal''" by (simp add: outputLabel_def)
  have "buildFilters numStr P N width height \<noteq> []" using len N by auto
  then have joined: "buildFilterComplex numStr P N width height =
       concat (map (\<lambda>s. s @ '';'') (butlast (buildFilters numStr P N width height)))
         @ last (buildFilters numStr P N width height)"
    unfolding buildFilterComplex_def by (rule join_concat)
  have "ffmpegArgs inputFiles (buildFilterComplex numStr P N width height) =
       concat (map (\<lambda>f. [''-i'', f]) inputFiles) @
       [''-filter_complex'', buildFilterComplex numStr P N width height,
        ''-map'', ''['' @ outputLabel (N - 2) N @ '']''] @
       [''-c:v'', ''libx264'', ''-pix_fmt'', ''yuv420p'', ''-preset'', ''fast'',
        ''-movflags'', ''+faststart'', ''-y'', ''slideshow.mp4'']"
    by (simp add: ffmpegArgs_def inputArgs_def outputFile_def fin)
  then have args: "ffmpegArgs inputFiles (buildFilterComplex numStr P N width height) =
       concat (map (\<lambda>f. [''-i'', f]) inputFiles) @
       [''-filter_complex'',
        concat (map (\<lambda>s. s @ '';'') (butlast (buildFilters numStr P N width height)))
          @ last (buildFilters numStr P N width height),
        ''-map'', ''['' @ outputLabel (N - 2) N @ '']''] @
       [''-c:v'', ''libx264'', ''-pix_fmt'', ''yuv420p'', ''-preset'', ''fast'',
        ''-movflags'', ''+faststart'', ''-y'', ''slideshow.mp4'']"
    by (simp only: joined)
  from len tr xf a0 chain b fin outputs_distinct [of N] joined args show ?thesis
    by (intro conjI)
qed

theorem buildFilterComplex_topology_witness:
  "buildFilterComplex (\<lambda>x. ''0.5'') newProcessor 2 300 200 =
     ''[0:v]scale=300:200:force_original_aspect_ratio=decrease,pad=300:200:(ow-iw)/2:(oh-ih)/2:black,setsar=1,fps=30,format=yuva420p,loop=loop=52:size=1:start=0,trim=duration=0.5,setpts=PTS-STARTPTS[v0];[1:v]scale=300:200:force_original_aspect_ratio=decrease,pad=300:200:(ow-iw)/2:(oh-ih)/2:black,setsar=1,fps=30,format=yuva420p,loop=loop=52:size=1:start=0,trim=duration=0.5,setpts=PTS-STARTPTS[v1];[v0][v1]xfade=transition=fade:duration=0.5:offset=1.50[vfinal]'' \<and>
   ffmpegArgs [''input0.jpg'', ''input1.png''] (buildFilterComplex (\<lambda>x. ''0.5'') newProcessor 2 300 200) =
     [''-i'', ''input0.jpg'', ''-i'', ''input1.png'', ''-filter_complex'',
      ''[0:v]scale=300:200:force_original_aspect_ratio=decrease,pad=300:200:(ow-iw)/2:(oh-ih)/2:black,setsar=1,fps=30,format=yuva420p,loop=loop=52:size=1:start=0,trim=duration=0.5,setpts=PTS-STARTPTS[v0];[1:v]scale=300:200:force_original_aspect_ratio=decrease,pad=300:200:(ow-iw)/2:(oh-ih)/2:black,setsar=1,fps=30,format=yuva420p,loop=loop=52:size=1:start=0,trim=duration=0.5,setpts=PTS-STARTPTS[v1];[v0][v1]xfade=transition=fade:duration=0.5:offset=1.50[vfinal]'',
      ''-map'', ''[vfinal]'', ''-c:v'', ''libx264'', ''-pix_fmt'', ''yuv420p'',
      ''-preset'', ''fast'', ''-movflags'', ''+faststart'', ''-y'', ''slideshow.mp4''] \<and>
   length (buildFilters (\<lambda>x. ''0.5'') newProcessor 2 300 200) = 2 + (2 - 1) \<and>
   outputLabel (2 - 2) 2 = ''vfinal''"
proof -
  have h: "(2::nat) \<le> 2" by simp
  have e: "buildFilters (\<lambda>x. ''0.5'') newProcessor 2 300 200 =
     [''[0:v]scale=300:200:force_original_aspect_ratio=decrease,pad=300:200:(ow-iw)/2:(oh-ih)/2:black,setsar=1,fps=30,format=yuva420p,loop=loop=52:size=1:start=0,trim=duration=0.5,setpts=PTS-STARTPTS[v0]'',
      ''[1:v]scale=300:200:force_original_aspect_ratio=decrease,pad=300:200:(ow-iw)/2:(oh-ih)/2:black,setsar=1,fps=30,format=yuva420p,loop=loop=52:size=1:start=0,trim=duration=0.5,setpts=PTS-STARTPTS[v1]'',
      ''[v0][v1]xfade=transition=fade:duration=0.5:offset=1.50[vfinal]'']"
    by code_simp
  note c = buildFilterComplex_topology [OF h, of "\<lambda>x. ''0.5''" newProcessor 300 200
      "[''input0.jpg'', ''input1.png'']"]
  from c have l: "length (buildFilters (\<lambda>x. ''0.5'') newProcessor 2 300 200) = 2 + (2 - 1)"
    by (rule conjunct1)
  from c have f: "outputLabel (2 - 2) 2 = ''vfinal''" by (elim conjE)
  from c have t: "buildFilterComplex (\<lambda>x. ''0.5'') newProcessor 2 300 200 =
       concat (map (\<lambda>s. s @ '';'') (butlast (buildFilters (\<lambda>x. ''0.5'') newProcessor 2 300 200)))
         @ last (buildFilters (\<lambda>x. ''0.5'') newProcessor 2 300 200)"
    by (elim conjE)
  from c have a: "ffmpegArgs [''input0.jpg'', ''input1.png''] (buildFilterComplex (\<lambda>x. ''0.5'') newProcessor 2 300 200) =
       concat (map (\<lambda>f. [''-i'', f]) [''input0.jpg'', ''input1.png'']) @
       [''-filter_complex'',
        concat (map (\<lambda>s. s @ '';'') (butlast (buildFilters (\<lambda>x. ''0.5'') newProcessor 2 300 200)))
          @ last (buildFilters (\<lambda>x. ''0.5'') newProcessor 2 300 200),
        ''-map'', ''['' @ outputLabel (2 - 2) 2 @ '']''] @
       [''-c:v'', ''libx264'', ''-pix_fmt'', ''yuv420p'', ''-preset'', ''fast'',
        ''-movflags'', ''+faststart'', ''-y'', ''slideshow.mp4'']"
    by (elim conjE)
  have t': "buildFilterComplex (\<lambda>x. ''0.5'') newProcessor 2 300 200 =
     ''[0:v]scale=300:200:force_original_aspect_ratio=decrease,pad=300:200:(ow-iw)/2:(oh-ih)/2:black,setsar=1,fps=30,format=yuva420p,loop=loop=52:size=1:start=0,trim=duration=0.5,setpts=PTS-STARTPTS[v0];[1:v]scale=300:200:force_original_aspect_ratio=decrease,pad=300:200:(ow-iw)/2:(oh-ih)/2:black,setsar=1,fps=30,format=yuva420p,loop=loop=52:size=1:start=0,trim=duration=0.5,setpts=PTS-STARTPTS[v1];[v0][v1]xfade=transition=fade:duration=0.5:offset=1.50[vfinal]''"
    unfolding t e by simp
  have a': "ffmpegArgs [''input0.jpg'', ''input1.png''] (buildFilterComplex (\<lambda>x. ''0.5'') newProcessor 2 300 200) =
     [''-i'', ''input0.jpg'', ''-i'', ''input1.png'', ''-filter_complex'',
      ''[0:v]scale=300:200:force_original_aspect_ratio=decrease,pad=300:200:(ow-iw)/2:(oh-ih)/2:black,setsar=1,fps=30,format=yuva420p,loop=loop=52:size=1:start=0,trim=duration=0.5,setpts=PTS-STARTPTS[v0];[1:v]scale=300:200:force_original_aspect_ratio=decrease,pad=300:200:(ow-iw)/2:(oh-ih)/2:black,setsar=1,fps=30,format=yuva420p,loop=loop=52:size=1:start=0,trim=duration=0.5,setpts=PTS-STARTPTS[v1];[v0][v1]xfade=transition=fade:duration=0.5:offset=1.50[vfinal]'',
      ''-map'', ''[vfinal]'', ''-c:v'', ''libx264'', ''-pix_fmt'', ''yuv420p'',
      ''-preset'', ''fast'', ''-movflags'', ''+faststart'', ''-y'', ''slideshow.mp4'']"
    unfolding a e f by simp
  from t' a' l f show ?thesis by (intro conjI)
qed

subsection \<open>Crossfade offsets\<close>

text \<open>
  Claim C3, counterexample. The offsets are sums of doubles, not multiples of \<open>D\<close>. With
  \<open>D = 0.515\<close> the third offset is the double \<open>1.54499999999999992...\<close>, below
  \<open>3 D = 1.545...\<close>, and the statement carries \<open>1.54\<close> where \<open>3 D\<close> to two decimals is
  \<open>1.55\<close>. With \<open>D = 0.1\<close> the sixth offset is the double \<open>0.6\<close>, which is neither \<open>6 D\<close>
  nor the product \<open>D * 6\<close> on doubles, \<open>0.6000000000000001\<close>.
\<close>

theorem offsets_are_not_multiples:
  "offsetAt \<lparr>displayDuration = numberLiteral (515 / 1000), transitionDuration = 1 / 2, fps = 30\<rparr> 2
     = 869757678035927 / 562949953421312 \<and>
   offsetAt \<lparr>displayDuration = numberLiteral (515 / 1000), transitionDuration = 1 / 2, fps = 30\<rparr> 2
     \<noteq> numberLiteral (515 / 1000) * 3 \<and>
   buildFilters (\<lambda>x. ''0.5'')
       \<lparr>displayDuration = numberLiteral (515 / 1000), transitionDuration = 1 / 2, fps = 30\<rparr> 4 300 200 ! 6
     = ''[vout2][v3]xfade=transition=fade:duration=0.5:offset=1.54[vfinal]'' \<and>
   toFixed2 (\<lambda>x. []) (numberLiteral (515 / 1000) * 3) = ''1.55'' \<and>
   offsetAt \<lparr>displayDuration = numberLiteral (1 / 10), transitionDuration = 1 / 2, fps = 30\<rparr> 5
     = numberLiteral (6 / 10) \<and>
   offsetAt \<lparr>displayDuration = numberLiteral (1 / 10), transitionDuration = 1 / 2, fps = 30\<rparr> 5
     \<noteq> numberLiteral (1 / 10) * 6 \<and>
   offsetAt \<lparr>displayDuration = numberLiteral (1 / 10), transitionDuration = 1 / 2, fps = 30\<rparr> 5
     \<noteq> dmul (numberLiteral (1 / 10)) 6"
proof -
  have d: "numberLiteral (515 / 1000) = 4638707616191611 / 9007199254740992" by code_simp
  have s1: "dadd (4638707616191611 / 9007199254740992) (4638707616191611 / 9007199254740992)
              = 4638707616191611 / 4503599627370496" by code_simp
  have s2: "dadd (4638707616191611 / 4503599627370496) (4638707616191611 / 9007199254740992)
              = 869757678035927 / 562949953421312" by code_simp
  have o2: "offsetAt \<lparr>displayDuration = numberLiteral (515 / 1000), transitionDuration = 1 / 2, fps = 30\<rparr> 2
              = 869757678035927 / 562949953421312"
    unfolding d by (simp add: numeral_2_eq_2 s1 s2)
  have x: "xfadeStatement (\<lambda>x. ''0.5'')
             \<lparr>displayDuration = 4638707616191611 / 9007199254740992, transitionDuration = 1 / 2, fps = 30\<rparr>
             2 4 (869757678035927 / 562949953421312)
           = ''[vout2][v3]xfade=transition=fade:duration=0.5:offset=1.54[vfinal]''"
    by code_simp
  have st: "buildFilters (\<lambda>x. ''0.5'')
       \<lparr>displayDuration = numberLiteral (515 / 1000), transitionDuration = 1 / 2, fps = 30\<rparr> 4 300 200 ! 6
     = ''[vout2][v3]xfade=transition=fade:duration=0.5:offset=1.54[vfinal]''"
  proof -
    have i: "buildFilters f Q 4 300 200 ! 6
               = xfadeStatement f Q (Suc (Suc 0)) 4 (offsetAt Q (Suc (Suc 0)))" for f Q
      by (simp add: buildFilters_eq nth_append del: offsetAt.simps)
    show ?thesis unfolding i numeral_2_eq_2 [symmetric] o2 unfolding d by (rule x)
  qed
  have f: "toFixed2 (\<lambda>x. []) (numberLiteral (515 / 1000) * 3) = ''1.55''"
    unfolding d by code_simp
  have e: "numberLiteral (1 / 10) = 3602879701896397 / 36028797018963968" by code_simp
  have t1: "dadd (3602879701896397 / 36028797018963968) (3602879701896397 / 36028797018963968)
              = 3602879701896397 / 18014398509481984" by code_simp
  have t2: "dadd (3602879701896397 / 18014398509481984) (3602879701896397 / 36028797018963968)
              = 1351079888211149 / 4503599627370496" by code_simp
  have t3: "dadd (1351079888211149 / 4503599627370496) (3602879701896397 / 36028797018963968)
              = 3602879701896397 / 9007199254740992" by code_simp
  have t4: "dadd (3602879701896397 / 9007199254740992) (3602879701896397 / 36028797018963968)
              = 1 / 2" by code_simp
  have t5: "dadd (1 / 2) (3602879701896397 / 36028797018963968)
              = 5404319552844595 / 9007199254740992" by code_simp
  have o5: "offsetAt \<lparr>displayDuration = numberLiteral (1 / 10), transitionDuration = 1 / 2, fps = 30\<rparr> 5
              = 5404319552844595 / 9007199254740992"
    unfolding e by (simp add: eval_nat_numeral t1 t2 t3 t4 t5)
  have l: "numberLiteral (6 / 10) = 5404319552844595 / 9007199254740992" by code_simp
  have m: "dmul (3602879701896397 / 36028797018963968) 6 = 1351079888211149 / 2251799813685248"
    by code_simp
  have n1: "offsetAt \<lparr>displayDuration = numberLiteral (515 / 1000), transitionDuration = 1 / 2, fps = 30\<rparr> 2
              \<noteq> numberLiteral (515 / 1000) * 3"
    unfolding o2 unfolding d by simp
  have n2: "offsetAt \<lparr>displayDuration = numberLiteral (1 / 10), transitionDuration = 1 / 2, fps = 30\<rparr> 5
              = numberLiteral (6 / 10)"
    unfolding o5 l by (rule refl)
  have n3: "offsetAt \<lparr>displayDuration = numberLiteral (1 / 10), transitionDuration = 1 / 2, fps = 30\<rparr> 5
              \<noteq> numberLiteral (1 / 10) * 6"
    unfolding o5 unfolding e by simp
  have n4: "offsetAt \<lparr>displayDuration = numberLiteral (1 / 10), transitionDuration = 1 / 2, fps = 30\<rparr> 5
              \<noteq> dmul (numberLiteral (1 / 10)) 6"
    unfolding o5 unfolding e m by simp
  from o2 n1 st f n2 n3 n4 show ?thesis by (intro conjI)
qed

text \<open>
  Claim C3, as the code has it. For \<open>2 \<le> N \<le> 2^50\<close> images and a positive display duration
  \<open>D\<close> with \<open>D \<cdot> N < 10^20\<close> (twice that is still below the \<open>10^21\<close> threshold of \<open>toFixed\<close>)
  the crossfade offsets are \<open>offset\<^sub>0 = D\<close> and \<open>offset\<^sub>i\<^sub>+\<^sub>1\<close> the double nearest to
  \<open>offset\<^sub>i + D\<close>; \<open>offset\<^sub>i\<close> is away from \<open>D \<cdot> (i + 1)\<close> by at most
  \<open>i (i + 2) D / 2^53\<close>; the offsets strictly increase; and crossfade statement \<open>i\<close> carries
  \<open>offset\<^sub>i\<close> as digits, a point and exactly two fraction digits, the written number being
  within half a hundredth of the offset.
\<close>

theorem xfade_offsets_serialized:
  "2 \<le> N \<Longrightarrow> N \<le> 2 ^ 50 \<Longrightarrow> 0 < displayDuration P \<Longrightarrow>
   displayDuration P * of_nat N < 10 ^ 20 \<Longrightarrow>
     offsetAt P 0 = displayDuration P \<and>
     (\<forall>i. offsetAt P (i + 1) = roundDouble (offsetAt P i + displayDuration P)) \<and>
     (\<forall>i < N. \<bar>offsetAt P i - displayDuration P * (of_nat i + 1)\<bar>
                 \<le> of_nat i * (of_nat i + 2) * displayDuration P / 2 ^ 53) \<and>
     (\<forall>i j. i < j \<and> j < N \<longrightarrow> offsetAt P i < offsetAt P j) \<and>
     (\<forall>i < N - 1. \<exists>whole frac.
         buildFilters numStr P N width height ! (N + i) =
           ''['' @ inputA i @ '']['' @ inputB i @ '']xfade=transition=fade:duration=''
             @ numStr (transitionDuration P) @ '':offset='' @ whole @ ''.'' @ frac
             @ ''['' @ outputLabel i N @ '']'' \<and>
         whole @ ''.'' @ frac = toFixed2 numStr (offsetAt P i) \<and>
         whole \<noteq> [] \<and> length frac = 2 \<and> (\<forall>c \<in> set (whole @ frac). isDigit c) \<and>
         \<bar>offsetAt P i - of_nat (digitsVal whole * 100 + digitsVal frac) / 100\<bar> \<le> 1 / 200)"
proof -
  assume N: "2 \<le> N" and M: "N \<le> 2 ^ 50" and D: "0 < displayDuration P"
    and B: "displayDuration P * of_nat N < 10 ^ 20"
  have small: "i \<le> 2 ^ 50" if "i < N" for i using that M by linarith
  have rec: "\<forall>i. offsetAt P (i + 1) = roundDouble (offsetAt P i + displayDuration P)"
    by (simp add: dadd_def)
  have err: "\<forall>i < N. \<bar>offsetAt P i - displayDuration P * (of_nat i + 1)\<bar>
                 \<le> of_nat i * (of_nat i + 2) * displayDuration P / 2 ^ 53"
  proof (intro allI impI)
    fix i assume "i < N"
    from offsetAt_error [OF D small [OF this]]
    show "\<bar>offsetAt P i - displayDuration P * (of_nat i + 1)\<bar>
                 \<le> of_nat i * (of_nat i + 2) * displayDuration P / 2 ^ 53"
      by (simp only: mult.commute)
  qed
  have mono: "\<forall>i j. i < j \<and> j < N \<longrightarrow> offsetAt P i < offsetAt P j"
  proof (intro allI impI)
    fix i j assume ij: "i < j \<and> j < N"
    then have "i < j" "j \<le> 2 ^ 50" using small by simp_all
    then show "offsetAt P i < offsetAt P j" by (rule offsetAt_strict_mono [OF D])
  qed
  have ser: "\<forall>i < N - 1. \<exists>whole frac.
         buildFilters numStr P N width height ! (N + i) =
           ''['' @ inputA i @ '']['' @ inputB i @ '']xfade=transition=fade:duration=''
             @ numStr (transitionDuration P) @ '':offset='' @ whole @ ''.'' @ frac
             @ ''['' @ outputLabel i N @ '']'' \<and>
         whole @ ''.'' @ frac = toFixed2 numStr (offsetAt P i) \<and>
         whole \<noteq> [] \<and> length frac = 2 \<and> (\<forall>c \<in> set (whole @ frac). isDigit c) \<and>
         \<bar>offsetAt P i - of_nat (digitsVal whole * 100 + digitsVal frac) / 100\<bar> \<le> 1 / 200"
  proof (intro allI impI)
    fix i assume i: "i < N - 1"
    have st: "buildFilters numStr P N width height ! (N + i) =
           ''['' @ inputA i @ '']['' @ inputB i @ '']xfade=transition=fade:duration=''
             @ numStr (transitionDuration P) @ '':offset='' @ toFixed2 numStr (offsetAt P i)
             @ ''['' @ outputLabel i N @ '']''"
      using i by (simp add: buildFilters_eq nth_append xfadeStatement_def)
    from i have iN: "i < N" by simp
    from offsetAt_bounds [OF D small [OF iN]]
    have lo: "0 \<le> offsetAt P i" and up: "offsetAt P i \<le> 2 * (of_nat i + 1) * displayDuration P"
      by simp_all
    define a where "a = (of_nat i + 1) * displayDuration P"
    define b where "b = of_nat N * displayDuration P"
    have "(of_nat i + 1 :: rat) \<le> of_nat N" using i by (simp add: of_nat_diff flip: of_nat_Suc)
    then have ab: "a \<le> b" unfolding a_def b_def using D by (simp add: mult_right_mono)
    have oa: "offsetAt P i \<le> 2 * a" using up by (simp add: a_def algebra_simps)
    have "b < 10 ^ 20" using B by (simp only: b_def mult.commute)
    then have "b < 100000000000000000000" by simp
    with ab oa have "offsetAt P i < 1000000000000000000000" by linarith
    then have hi: "offsetAt P i < 10 ^ 21" by simp
    from toFixed2_shape [OF lo hi, of numStr]
    obtain whole frac where wf: "toFixed2 numStr (offsetAt P i) = whole @ ''.'' @ frac"
      "whole \<noteq> []" "length frac = 2" "\<forall>c \<in> set (whole @ frac). isDigit c"
      "\<bar>offsetAt P i - of_nat (digitsVal whole * 100 + digitsVal frac) / 100\<bar> \<le> 1 / 200"
      by blast
    show "\<exists>whole frac.
         buildFilters numStr P N width height ! (N + i) =
           ''['' @ inputA i @ '']['' @ inputB i @ '']xfade=transition=fade:duration=''
             @ numStr (transitionDuration P) @ '':offset='' @ whole @ ''.'' @ frac
             @ ''['' @ outputLabel i N @ '']'' \<and>
         whole @ ''.'' @ frac = toFixed2 numStr (offsetAt P i) \<and>
         whole \<noteq> [] \<and> length frac = 2 \<and> (\<forall>c \<in> set (whole @ frac). isDigit c) \<and>
         \<bar>offsetAt P i - of_nat (digitsVal whole * 100 + digitsVal frac) / 100\<bar> \<le> 1 / 200"
      apply (rule exI [of _ whole], rule exI [of _ frac])
      using st wf by simp
  qed
  have z: "offsetAt P 0 = displayDuration P" by simp
  from z rec err mono ser show ?thesis by (intro conjI)
qed

theorem xfade_offsets_serialized_witness:
  "offsetAt newProcessor 0 = 3 / 2 \<and> offsetAt newProcessor 1 = 3 \<and>
   offsetAt newProcessor 0 < offsetAt newProcessor 1 \<and>
   buildFilters (\<lambda>x. ''0.5'') newProcessor 3 300 200 ! 3 =
     ''[v0][v1]xfade=transition=fade:duration=0.5:offset=1.50[vout1]'' \<and>
   buildFilters (\<lambda>x. ''0.5'') newProcessor 3 300 200 ! 4 =
     ''[vout1][v2]xfade=transition=fade:duration=0.5:offset=3.00[vfinal]''"
proof -
  have h1: "(2::nat) \<le> 3" by simp
  have h2: "(3::nat) \<le> 2 ^ 50" by simp
  have d: "displayDuration newProcessor = 3 / 2"
    by (simp add: newProcessor_def DISPLAY_DURATION_def)
  have h3: "0 < displayDuration newProcessor" by (simp add: d)
  have h4: "displayDuration newProcessor * of_nat 3 < 10 ^ 20" by (simp add: d)
  have e: "buildFilters (\<lambda>x. ''0.5'') newProcessor 3 300 200 ! 3 =
     ''[v0][v1]xfade=transition=fade:duration=0.5:offset=1.50[vout1]''"
     "buildFilters (\<lambda>x. ''0.5'') newProcessor 3 300 200 ! 4 =
     ''[vout1][v2]xfade=transition=fade:duration=0.5:offset=3.00[vfinal]''"
    by code_simp+
  have r: "roundDouble (3 / 2 + 3 / 2) = 3" by code_simp
  note c = xfade_offsets_serialized [OF h1 h2 h3 h4, of "\<lambda>x. ''0.5''" 300 200]
  from c have o0: "offsetAt newProcessor 0 = 3 / 2" using d by simp
  from c have "\<forall>i. offsetAt newProcessor (i + 1)
                 = roundDouble (offsetAt newProcessor i + displayDuration newProcessor)"
    by (elim conjE)
  then have "offsetAt newProcessor (0 + 1)
                 = roundDouble (offsetAt newProcessor 0 + displayDuration newProcessor)"
    by (rule spec)
  then have o1: "offsetAt newProcessor 1 = 3" unfolding o0 d r by simp
  from c have "\<forall>i j. i < j \<and> j < 3 \<longrightarrow> offsetAt newProcessor i < offsetAt newProcessor j"
    by (elim conjE)
  then have "0 < (1::nat) \<and> (1::nat) < 3 \<longrightarrow> offsetAt newProcessor 0 < offsetAt newProcessor 1"
    by (elim allE)
  then have "offsetAt newProcessor 0 < offsetAt newProcessor 1" by (simp del: offsetAt.simps One_nat_def)
  with o0 o1 e show ?thesis by (intro conjI)
qed

section \<open>Properties of the state manager\<close>

subsection \<open>What setState leaves alone\<close>

lemma notify_frame:
  "loaded (notify u w) = loaded w" "vfs (notify u w) = vfs w"
  "engineLog (notify u w) = engineLog w" "progressLog (notify u w) = progressLog w"
  "app (notify u w) = app w"
  by (cases u; simp)+

lemma fold_notify_frame:
  "loaded (fold notify us w) = loaded w" "vfs (fold notify us w) = vfs w"
  "engineLog (fold notify us w) = engineLog w" "progressLog (fold notify us w) = progressLog w"
  "app (fold notify us w) = app w"
  by (induction us arbitrary: w; simp add: notify_frame)+

lemma setState_frame:
  "loaded (setState who us w) = loaded w" "vfs (setState who us w) = vfs w"
  "engineLog (setState who us w) = engineLog w"
  by (simp_all add: setState_def Let_def fold_notify_frame)

lemma setState_progressLog:
  "progressLog (setState who us w) = progressLog w @ map (Pair who) (progressWrites us)"
  by (simp add: setState_def Let_def fold_notify_frame)

lemma setState_app:
  "app (setState who us w) = fold assign (filter (changes (app w)) us) (app w)"
  by (simp add: setState_def Let_def fold_notify_frame)

section \<open>Properties of the controller\<close>

lemma generate_invalid_files:
  assumes "validateSlideshowFiles files = Invalid m"
  shows "generate e P run files displayInput transitionInput w =
           (Rejected (ValidationFailed m), P, setState Controller [SetError None] w)"
  unfolding generate_def Let_def using assms by simp

lemma generate_invalid_duration:
  assumes "validateSlideshowFiles files = Valid"
    and "jsOr displayInput DISPLAY_DURATION < DISPLAY_DURATION_MIN \<or>
         jsOr displayInput DISPLAY_DURATION > DISPLAY_DURATION_MAX \<or>
         jsOr transitionInput TRANSITION_DURATION < TRANSITION_DURATION_MIN \<or>
         jsOr transitionInput TRANSITION_DURATION > TRANSITION_DURATION_MAX"
  shows "\<exists>m. generate e P run files displayInput transitionInput w =
           (Rejected (InvalidDuration m), P, setState Controller [SetError None] w)"
proof (cases "jsOr displayInput DISPLAY_DURATION < DISPLAY_DURATION_MIN \<or>
         jsOr displayInput DISPLAY_DURATION > DISPLAY_DURATION_MAX")
  case True
  then show ?thesis
    unfolding generate_def Let_def using assms(1) by simp
next
  case False
  with assms(2) have "jsOr transitionInput TRANSITION_DURATION < TRANSITION_DURATION_MIN \<or>
         jsOr transitionInput TRANSITION_DURATION > TRANSITION_DURATION_MAX" by blast
  with False show ?thesis
    unfolding generate_def Let_def using assms(1) by simp
qed

lemma extension_imageA: "pop (splitDot (fileName imageA)) = Some ''JPG'' \<and> toLowerCase ''JPG'' = ''jpg''"
  by code_simp

lemma extension_imageB: "pop (splitDot (fileName imageB)) = Some ''png'' \<and> toLowerCase ''png'' = ''png''"
  by code_simp

lemma validateFile_imageA: "validateFile imageA = Valid"
  using extension_imageA
  by (simp add: validateFile_def ACCEPTED_FORMATS_def ACCEPTED_MIME_TYPES_def MAX_FILE_SIZE_def)
     (simp add: imageA_def)

lemma validateFile_imageB: "validateFile imageB = Valid"
  using extension_imageB
  by (simp add: validateFile_def ACCEPTED_FORMATS_def ACCEPTED_MIME_TYPES_def MAX_FILE_SIZE_def)
     (simp add: imageB_def)

lemma validate_examples: "validateSlideshowFiles [imageA, imageB] = Valid"
  by (simp add: validateSlideshowFiles_def MAX_FILES_SLIDESHOW_def validateFile_imageA validateFile_imageB)

lemma transition_min_value: "TRANSITION_DURATION_MIN = 3602879701896397 / 36028797018963968"
  unfolding TRANSITION_DURATION_MIN_def by code_simp

text \<open>
  Claim C4, counterexample. A display duration typed as \<open>0\<close> lies outside \<open>[0.5, 10]\<close>, yet
  \<open>generate\<close> replaces it by the default \<open>1.5\<close> (\<open>0\<close> is falsy) and the run produces the
  video. \<open>process\<close> called on a processor whose transition duration is \<open>5\<close> produces the
  video too: it checks no duration. And with a single file and a transition duration of
  \<open>5\<close>, \<open>generate\<close> fails with the validation error of the files, not with a duration error.
\<close>

theorem out_of_range_durations_that_run:
  "fst (generate goodEnv newProcessor 0 [imageA, imageB] (Some 0) None initialWorld)
     = Fulfilled [7, 8, 9] \<and>
   displayDuration (fst (snd (generate goodEnv newProcessor 0 [imageA, imageB] (Some 0) None initialWorld)))
     = 3 / 2 \<and>
   fst (process goodEnv (newProcessor\<lparr>transitionDuration := 5\<rparr>) 0 [imageA, imageB] initialWorld)
     = Fulfilled [7, 8, 9] \<and>
   fst (generate goodEnv newProcessor 0 [imageA] (Some (3 / 2)) (Some 5) initialWorld)
     = Rejected (ValidationFailed ''Please upload at least 2 images'')"
proof -
  have p: "newProcessor\<lparr>displayDuration := 3 / 2, transitionDuration := 1 / 2\<rparr> = newProcessor"
    by (simp add: newProcessor_def DISPLAY_DURATION_def TRANSITION_DURATION_def)
  have r: "fst (process goodEnv newProcessor 0 [imageA, imageB]
                  (setState Controller [SetError None] initialWorld)) = Fulfilled [7, 8, 9]"
    by code_simp
  have g: "generate goodEnv newProcessor 0 [imageA, imageB] (Some 0) None initialWorld =
             (fst (process goodEnv newProcessor 0 [imageA, imageB]
                     (setState Controller [SetError None] initialWorld)),
              newProcessor,
              snd (process goodEnv newProcessor 0 [imageA, imageB]
                     (setState Controller [SetError None] initialWorld)))"
    by (simp add: generate_def validate_examples Let_def jsOr_def DISPLAY_DURATION_def
        TRANSITION_DURATION_def DISPLAY_DURATION_MIN_def DISPLAY_DURATION_MAX_def
        transition_min_value TRANSITION_DURATION_MAX_def p split_beta)
  have a: "fst (generate goodEnv newProcessor 0 [imageA, imageB] (Some 0) None initialWorld)
             = Fulfilled [7, 8, 9]"
    unfolding g fst_conv by (rule r)
  have b: "displayDuration (fst (snd (generate goodEnv newProcessor 0 [imageA, imageB] (Some 0) None
             initialWorld))) = 3 / 2"
    unfolding g fst_conv snd_conv by (simp add: newProcessor_def DISPLAY_DURATION_def)
  have c: "fst (process goodEnv (newProcessor\<lparr>transitionDuration := 5\<rparr>) 0 [imageA, imageB] initialWorld)
             = Fulfilled [7, 8, 9]"
    by code_simp
  have v: "validateSlideshowFiles [imageA] = Invalid ''Please upload at least 2 images''"
    by (simp add: validateSlideshowFiles_def ERROR_MIN_FILES_SLIDESHOW_def)
  have d: "fst (generate goodEnv newProcessor 0 [imageA] (Some (3 / 2)) (Some 5) initialWorld)
             = Rejected (ValidationFailed ''Please upload at least 2 images'')"
    by (simp add: generate_invalid_files [OF v])
  from a b c d show ?thesis by (intro conjI)
qed

text \<open>
  Claim C4, as the code has it. The durations \<open>generate\<close> checks are the parsed inputs, or
  the configured defaults where an input is \<open>0\<close> or not a number. When the display duration
  so obtained lies outside \<open>[0.5, 10]\<close> or the transition duration outside \<open>[0.1, 3]\<close>
  (\<open>0.1\<close> the double), \<open>generate\<close> ends with an error and never reaches \<open>process\<close>: with an
  \<open>InvalidDuration\<close> error when the files pass validation, with their validation error
  otherwise. In both cases the processor is unchanged and the world is the one it started
  from with the \<open>error\<close> key cleared, so no engine call was made, nothing was staged and no
  progress was written. A transition duration of \<open>5\<close> is such a run.
\<close>

theorem generate_rejects_invalid_duration:
  "jsOr displayInput DISPLAY_DURATION < DISPLAY_DURATION_MIN \<or>
   DISPLAY_DURATION_MAX < jsOr displayInput DISPLAY_DURATION \<or>
   jsOr transitionInput TRANSITION_DURATION < TRANSITION_DURATION_MIN \<or>
   TRANSITION_DURATION_MAX < jsOr transitionInput TRANSITION_DURATION \<Longrightarrow>
     (validateSlideshowFiles files = Valid \<longrightarrow>
        (\<exists>m. fst (generate e P run files displayInput transitionInput w) = Rejected (InvalidDuration m))) \<and>
     (\<forall>m. validateSlideshowFiles files = Invalid m \<longrightarrow>
        fst (generate e P run files displayInput transitionInput w) = Rejected (ValidationFailed m)) \<and>
     fst (snd (generate e P run files displayInput transitionInput w)) = P \<and>
     snd (snd (generate e P run files displayInput transitionInput w)) = setState Controller [SetError None] w \<and>
     engineLog (snd (snd (generate e P run files displayInput transitionInput w))) = engineLog w \<and>
     vfs (snd (snd (generate e P run files displayInput transitionInput w))) = vfs w \<and>
     progressLog (snd (snd (generate e P run files displayInput transitionInput w))) = progressLog w \<and>
     processing (app (snd (snd (generate e P run files displayInput transitionInput w)))) = processing (app w) \<and>
     jsOr None DISPLAY_DURATION = 3 / 2 \<and> jsOr (Some 0) DISPLAY_DURATION = 3 / 2 \<and>
     jsOr None TRANSITION_DURATION = 1 / 2 \<and> jsOr (Some 0) TRANSITION_DURATION = 1 / 2 \<and>
     DISPLAY_DURATION_MIN = 1 / 2 \<and> DISPLAY_DURATION_MAX = 10 \<and>
     TRANSITION_DURATION_MIN = roundDouble (1 / 10) \<and> TRANSITION_DURATION_MAX = 3"
proof -
  assume bad: "jsOr displayInput DISPLAY_DURATION < DISPLAY_DURATION_MIN \<or>
   DISPLAY_DURATION_MAX < jsOr displayInput DISPLAY_DURATION \<or>
   jsOr transitionInput TRANSITION_DURATION < TRANSITION_DURATION_MIN \<or>
   TRANSITION_DURATION_MAX < jsOr transitionInput TRANSITION_DURATION"
  have ex: "\<exists>r. generate e P run files displayInput transitionInput w =
              (r, P, setState Controller [SetError None] w) \<and>
              (validateSlideshowFiles files = Valid \<longrightarrow> (\<exists>m. r = Rejected (InvalidDuration m))) \<and>
              (\<forall>m. validateSlideshowFiles files = Invalid m \<longrightarrow> r = Rejected (ValidationFailed m))"
  proof (cases "validateSlideshowFiles files")
    case Valid
    from generate_invalid_duration [OF Valid, of displayInput transitionInput e P run w] bad
    show ?thesis using Valid by auto
  next
    case (Invalid m)
    from generate_invalid_files [OF Invalid, of e P run displayInput transitionInput w]
    show ?thesis using Invalid by simp
  qed
  then obtain r where g: "generate e P run files displayInput transitionInput w =
              (r, P, setState Controller [SetError None] w)"
    and rv: "validateSlideshowFiles files = Valid \<longrightarrow> (\<exists>m. r = Rejected (InvalidDuration m))"
    and ri: "\<forall>m. validateSlideshowFiles files = Invalid m \<longrightarrow> r = Rejected (ValidationFailed m)"
    by blast
  have p: "processing (app (setState Controller [SetError None] w)) = processing (app w)"
    by (simp add: setState_app)
  have c: "jsOr None DISPLAY_DURATION = 3 / 2 \<and> jsOr (Some 0) DISPLAY_DURATION = 3 / 2 \<and>
     jsOr None TRANSITION_DURATION = 1 / 2 \<and> jsOr (Some 0) TRANSITION_DURATION = 1 / 2 \<and>
     DISPLAY_DURATION_MIN = 1 / 2 \<and> DISPLAY_DURATION_MAX = 10 \<and>
     TRANSITION_DURATION_MIN = roundDouble (1 / 10) \<and> TRANSITION_DURATION_MAX = 3"
    by (simp add: jsOr_def DISPLAY_DURATION_def TRANSITION_DURATION_def DISPLAY_DURATION_MIN_def
        DISPLAY_DURATION_MAX_def TRANSITION_DURATION_MIN_def TRANSITION_DURATION_MAX_def
        numberLiteral_def)
  have main: "(validateSlideshowFiles files = Valid \<longrightarrow>
        (\<exists>m. fst (generate e P run files displayInput transitionInput w) = Rejected (InvalidDuration m))) \<and>
     (\<forall>m. validateSlideshowFiles files = Invalid m \<longrightarrow>
        fst (generate e P run files displayInput transitionInput w) = Rejected (ValidationFailed m)) \<and>
     fst (snd (generate e P run files displayInput transitionInput w)) = P \<and>
     snd (snd (generate e P run files displayInput transitionInput w)) = setState Controller [SetError None] w \<and>
     engineLog (snd (snd (generate e P run files displayInput transitionInput w))) = engineLog w \<and>
     vfs (snd (snd (generate e P run files displayInput transitionInput w))) = vfs w \<and>
     progressLog (snd (snd (generate e P run files displayInput transitionInput w))) = progressLog w \<and>
     processing (app (snd (snd (generate e P run files displayInput transitionInput w)))) = processing (app w)"
    unfolding g fst_conv snd_conv
    using p rv ri by (simp add: setState_frame setState_progressLog)
  from main c show ?thesis
    apply (elim conjE)
    apply (intro conjI)
    apply assumption+
    done
qed

theorem generate_rejects_invalid_duration_witness:
  "validateSlideshowFiles [imageA, imageB] = Valid \<and>
   TRANSITION_DURATION_MAX < jsOr (Some 5) TRANSITION_DURATION \<and>
   fst (generate goodEnv newProcessor 0 [imageA, imageB] (Some (3 / 2)) (Some 5) initialWorld) =
     Rejected (InvalidDuration ''Fade time must be between 0.1 and 3 seconds'') \<and>
   engineLog (snd (snd (generate goodEnv newProcessor 0 [imageA, imageB] (Some (3 / 2)) (Some 5)
     initialWorld))) = []"
proof -
  note v = validate_examples
  have t: "TRANSITION_DURATION_MAX < jsOr (Some 5) TRANSITION_DURATION"
    by (simp add: jsOr_def TRANSITION_DURATION_MAX_def)
  then have r: "jsOr (Some (3 / 2)) DISPLAY_DURATION < DISPLAY_DURATION_MIN \<or>
      DISPLAY_DURATION_MAX < jsOr (Some (3 / 2)) DISPLAY_DURATION \<or>
      jsOr (Some 5) TRANSITION_DURATION < TRANSITION_DURATION_MIN \<or>
      TRANSITION_DURATION_MAX < jsOr (Some 5) TRANSITION_DURATION"
    by (intro disjI2)
  have m: "fst (generate goodEnv newProcessor 0 [imageA, imageB] (Some (3 / 2)) (Some 5) initialWorld) =
     Rejected (InvalidDuration ''Fade time must be between 0.1 and 3 seconds'')"
    by (simp add: generate_def v Let_def jsOr_def DISPLAY_DURATION_MIN_def DISPLAY_DURATION_MAX_def
        transition_min_value TRANSITION_DURATION_MAX_def)
  have z: "engineLog initialWorld = []" by (simp add: initialWorld_def)
  from generate_rejects_invalid_duration [OF r, of "[imageA, imageB]" goodEnv newProcessor 0 initialWorld]
  have "engineLog (snd (snd (generate goodEnv newProcessor 0 [imageA, imageB] (Some (3 / 2)) (Some 5)
     initialWorld))) = engineLog initialWorld" by (elim conjE)
  with z have l: "engineLog (snd (snd (generate goodEnv newProcessor 0 [imageA, imageB] (Some (3 / 2)) (Some 5)
     initialWorld))) = []" by simp
  from v t m l show ?thesis by (intro conjI)
qed

section \<open>Properties of the progress bar\<close>

lemma updateProgress_inv: "barInv b \<Longrightarrow> barInv (updateProgress p b)"
  by (auto simp: barInv_def updateProgress_def Let_def)

lemma hide_percentage: "percentage (hide b) = 0 \<and> currentProgress (hide b) = 0 \<and> hidden (hide b)"
  by (simp add: hide_def updateProgress_def updateMessage_def Let_def)

lemma barStep_inv: "barInv b \<Longrightarrow> barInv (barStep ev b)"
proof (cases ev)
  case (ProgressChanged p)
  assume "barInv b"
  then show ?thesis using ProgressChanged by (simp add: updateProgress_inv)
next
  case (MessageChanged m)
  assume "barInv b"
  then show ?thesis using MessageChanged by (simp add: updateMessage_def barInv_def)
next
  case Show
  assume "barInv b"
  then show ?thesis using Show by (simp add: showBar_def barInv_def)
next
  case Hide
  then show ?thesis using hide_percentage [of b] by (simp add: barInv_def)
qed

lemma barAfter_inv: "barInv (barAfter evs)"
proof (induction evs rule: rev_induct)
  case Nil
  show ?case by (simp add: barAfter_def render_def barInv_def)
next
  case (snoc ev evs)
  have "barAfter (evs @ [ev]) = barStep ev (barAfter evs)" by (simp add: barAfter_def)
  with barStep_inv [OF snoc.IH] show ?case by simp
qed

text \<open>
  Claim C10. After any sequence of notifications and timer callbacks, \<open>updateProgress\<close>
  shows a percentage in \<open>[0, 100]\<close> that is not below the one shown before; an update whose
  clamped value is below the shown one leaves the component as it is, any other update shows
  the clamped value; \<open>hide\<close> hides the bar and shows \<open>0\<close>; and the only event that lowers the
  shown percentage is \<open>hide\<close>.
\<close>

theorem progress_bar_never_decreases:
  "0 \<le> percentage (updateProgress p (barAfter evs)) \<and>
   percentage (updateProgress p (barAfter evs)) \<le> 100 \<and>
   percentage (barAfter evs) \<le> percentage (updateProgress p (barAfter evs)) \<and>
   (min 100 (max 0 p) < percentage (barAfter evs) \<longrightarrow>
      updateProgress p (barAfter evs) = barAfter evs) \<and>
   (percentage (barAfter evs) \<le> min 100 (max 0 p) \<longrightarrow>
      percentage (updateProgress p (barAfter evs)) = min 100 (max 0 p)) \<and>
   percentage (hide (barAfter evs)) = 0 \<and> hidden (hide (barAfter evs)) \<and>
   (\<forall>ev. percentage (barStep ev (barAfter evs)) < percentage (barAfter evs) \<longrightarrow> ev = Hide)"
proof -
  let ?b = "barAfter evs"
  have inv: "currentProgress ?b = percentage ?b" "0 \<le> percentage ?b" "percentage ?b \<le> 100"
    using barAfter_inv [of evs] by (simp_all add: barInv_def)
  have a: "0 \<le> percentage (updateProgress p ?b) \<and> percentage (updateProgress p ?b) \<le> 100"
    using updateProgress_inv [OF barAfter_inv, of p evs] by (simp add: barInv_def)
  have up: "percentage ?b \<le> percentage (updateProgress q ?b)" for q
    using inv by (auto simp: updateProgress_def Let_def)
  have ign: "min 100 (max 0 p) < percentage ?b \<longrightarrow> updateProgress p ?b = ?b"
    using inv by (auto simp: updateProgress_def Let_def)
  have acc: "percentage ?b \<le> min 100 (max 0 p) \<longrightarrow>
      percentage (updateProgress p ?b) = min 100 (max 0 p)"
    using inv by (auto simp: updateProgress_def Let_def)
  have only: "\<forall>ev. percentage (barStep ev ?b) < percentage ?b \<longrightarrow> ev = Hide"
  proof (intro allI impI)
    fix ev assume lt: "percentage (barStep ev ?b) < percentage ?b"
    show "ev = Hide"
    proof (cases ev)
      case (ProgressChanged q)
      with lt up [of q] show ?thesis by simp
    next
      case (MessageChanged m)
      with lt show ?thesis by (simp add: updateMessage_def)
    next
      case Show
      with lt show ?thesis by (simp add: showBar_def)
    next
      case Hide
      then show ?thesis .
    qed
  qed
  from a up [of p] ign acc hide_percentage [of ?b] only show ?thesis
    by (intro conjI) (erule conjunct1 conjunct2 | assumption | simp)+
qed

theorem progress_bar_never_decreases_witness:
  "percentage (barAfter [Show, ProgressChanged 5, ProgressChanged 10]) = 10 \<and>
   min 100 (max 0 0) < percentage (barAfter [Show, ProgressChanged 5, ProgressChanged 10]) \<and>
   updateProgress 0 (barAfter [Show, ProgressChanged 5, ProgressChanged 10]) =
     barAfter [Show, ProgressChanged 5, ProgressChanged 10] \<and>
   percentage (barAfter [Show, ProgressChanged 5, ProgressChanged 10]) \<le> min 100 (max 0 250) \<and>
   percentage (updateProgress 250 (barAfter [Show, ProgressChanged 5, ProgressChanged 10])) = 100 \<and>
   percentage (barStep Hide (barAfter [Show, ProgressChanged 5, ProgressChanged 10])) <
     percentage (barAfter [Show, ProgressChanged 5, ProgressChanged 10])"
proof -
  let ?b = "barAfter [Show, ProgressChanged 5, ProgressChanged 10]"
  have p: "percentage ?b = 10" by code_simp
  have h: "percentage (barStep Hide ?b) < percentage ?b" by code_simp
  have lo: "min 100 (max 0 0) < percentage ?b" using p by simp
  have hi: "percentage ?b \<le> min 100 (max 0 250)" using p by simp
  from progress_bar_never_decreases [of 0 "[Show, ProgressChanged 5, ProgressChanged 10]"] lo
  have i: "updateProgress 0 ?b = ?b" by blast
  from progress_bar_never_decreases [of 250 "[Show, ProgressChanged 5, ProgressChanged 10]"] hi
  have "percentage (updateProgress 250 ?b) = min 100 (max 0 250)" by blast
  then have "percentage (updateProgress 250 ?b) = 100" by simp
  with p h lo hi i show ?thesis by (intro conjI)
qed

section \<open>Engine acquisition\<close>

lemma setState_keeps_processing:
  "\<forall>u \<in> set us. \<not> (\<exists>b. u = SetProcessing b) \<Longrightarrow>
     processing (app (setState who us w)) = processing (app w)"
proof -
  assume a: "\<forall>u \<in> set us. \<not> (\<exists>b. u = SetProcessing b)"
  have "processing (fold assign vs s) = processing s"
    if "\<forall>u \<in> set vs. \<not> (\<exists>b. u = SetProcessing b)" for vs s
    using that
  proof (induction vs arbitrary: s)
    case Nil
    then show ?case by simp
  next
    case (Cons v vs)
    then have "processing (assign v s) = processing s" by (cases v) auto
    with Cons show ?case by simp
  qed
  with a show ?thesis by (simp add: setState_app)
qed

lemma initialize_begin_processing:
  "processing (app (snd (initialize_begin e c w))) = processing (app w)"
  by (simp add: initialize_begin_def Let_def setState_keeps_processing)

lemma initialize_finish_processing:
  "processing (app (snd (initialize_finish ok w))) = processing (app w)"
  by (simp add: initialize_finish_def setState_keeps_processing)

lemma initialize_processing:
  "processing (app (snd (initialize e c w))) = processing (app w)"
proof (cases "initialize_begin e c w")
  case (Pair r w1)
  then have p: "processing (app w1) = processing (app w)"
    using initialize_begin_processing [of e c w] by simp
  show ?thesis
  proof (cases r)
    case (Done b)
    with Pair p show ?thesis by (simp add: initialize_def)
  next
    case AwaitOther
    with Pair p show ?thesis by (simp add: initialize_def)
  next
    case AwaitLoad
    obtain b w2 where f: "initialize_finish (loadSucceeds e) w1 = (b, w2)"
      by (cases "initialize_finish (loadSucceeds e) w1")
    with initialize_finish_processing [of "loadSucceeds e" w1] p
    have "processing (app w2) = processing (app w)" by simp
    with Pair AwaitLoad f show ?thesis by (simp add: initialize_def)
  qed
qed

lemma initialize_engineLog:
  "engineLog (snd (initialize e c w)) = engineLog w \<or>
   engineLog (snd (initialize e c w)) = engineLog w @ [Load]"
  by (simp add: initialize_def initialize_begin_def initialize_finish_def Let_def setState_frame)

lemma process_begin_processing:
  "processing (app (setState who [SetProgressMessage m2, SetProgress p2]
     (setState who [SetProcessing True, SetProgressMessage m1, SetProgress p1] w)))"
proof -
  have "processing (app (setState who [SetProcessing True, SetProgressMessage m1, SetProgress p1] w))"
    by (auto simp: setState_app)
  then show ?thesis by (simp add: setState_keeps_processing)
qed

text \<open>
  Whenever a run ends with \<open>EngineUnavailable\<close>, the engine has seen at most the \<open>load\<close>
  call, so nothing was staged, and the \<open>processing\<close> flag is still set.
\<close>

lemma process_engine_unavailable:
  assumes "fst (process e P run files w) = Rejected EngineUnavailable"
  shows "processing (app (snd (process e P run files w))) \<and>
         (engineLog (snd (process e P run files w)) = engineLog w \<or>
          engineLog (snd (process e P run files w)) = engineLog w @ [Load])"
proof -
  let ?w1 = "setState Orchestrator
               [SetProcessing True, SetProgressMessage ANALYZING_IMAGES, SetProgress 5] w"
  let ?w2 = "setState Orchestrator [SetProgressMessage LOADING_FFMPEG, SetProgress 10] ?w1"
  from assms have len: "\<not> length files < 2"
    by (auto simp: process_def)
  from assms len obtain d where d: "analyzeImages files = Some d"
    by (cases "analyzeImages files") (auto simp: process_def Let_def)
  obtain r w3 where i: "initialize e run ?w2 = (r, w3)" by (cases "initialize e run ?w2")
  from assms len d i have r: "r = Some False"
    by (cases d; cases r)
       (auto simp: process_def Let_def split: prod.splits option.splits if_splits)
  with len d i have w': "snd (process e P run files w) = w3"
    by (cases d) (simp add: process_def Let_def)
  have "processing (app w3)"
    using initialize_processing [of e run ?w2] i process_begin_processing by simp
  moreover have "engineLog w3 = engineLog w \<or> engineLog w3 = engineLog w @ [Load]"
    using initialize_engineLog [of e run ?w2] i by (simp add: setState_frame)
  ultimately show ?thesis by (simp add: w')
qed

text \<open>
  Claim C5, evaluated on two runs of two valid images from the initial state: in a browser
  without \<open>SharedArrayBuffer\<close>, and with an engine whose \<open>load\<close> rejects. Both end with
  \<open>EngineUnavailable\<close> and without any write to the engine, as the claim says; but
  \<open>processing\<close> is still \<open>True\<close> when the run is over, where the claim has it reset.
\<close>

theorem engine_unavailable_leaves_processing_set:
  "fst (process noSabEnv newProcessor 0 [imageA, imageB] initialWorld) = Rejected EngineUnavailable \<and>
   engineLog (snd (process noSabEnv newProcessor 0 [imageA, imageB] initialWorld)) = [] \<and>
   processing (app (snd (process noSabEnv newProcessor 0 [imageA, imageB] initialWorld))) \<and>
   fst (process (goodEnv\<lparr>loadSucceeds := False\<rparr>) newProcessor 0 [imageA, imageB] initialWorld) =
     Rejected EngineUnavailable \<and>
   engineLog (snd (process (goodEnv\<lparr>loadSucceeds := False\<rparr>) newProcessor 0 [imageA, imageB]
     initialWorld)) = [Load] \<and>
   processing (app (snd (process (goodEnv\<lparr>loadSucceeds := False\<rparr>) newProcessor 0
     [imageA, imageB] initialWorld)))"
  by code_simp

section \<open>Concurrent acquisition\<close>

text \<open>
  Claim C9, evaluated on two callers that enter \<open>initialize\<close> one after the other before the
  load settles. One load is started and the second caller subscribes and waits, as the claim
  says, and when the load resolves both observe \<open>True\<close>. When the load rejects, the first
  caller observes \<open>False\<close> and the second observes nothing: it stays subscribed, and a later
  successful load by a third caller resolves it with \<open>True\<close>.
\<close>

theorem concurrent_initialize_outcomes:
  "loadCount (runEvents goodEnv [Call 1, Call 2] \<lparr>current = initialWorld, inFlight = []\<rparr>) = 1 \<and>
   inFlight (runEvents goodEnv [Call 1, Call 2] \<lparr>current = initialWorld, inFlight = []\<rparr>) = [1] \<and>
   waiters (current (runEvents goodEnv [Call 1, Call 2]
     \<lparr>current = initialWorld, inFlight = []\<rparr>)) = [2] \<and>
   observed (runEvents goodEnv [Call 1, Call 2, LoadSettles True]
     \<lparr>current = initialWorld, inFlight = []\<rparr>) 1 = Some True \<and>
   observed (runEvents goodEnv [Call 1, Call 2, LoadSettles True]
     \<lparr>current = initialWorld, inFlight = []\<rparr>) 2 = Some True \<and>
   observed (runEvents goodEnv [Call 1, Call 2, LoadSettles False]
     \<lparr>current = initialWorld, inFlight = []\<rparr>) 1 = Some False \<and>
   observed (runEvents goodEnv [Call 1, Call 2, LoadSettles False]
     \<lparr>current = initialWorld, inFlight = []\<rparr>) 2 = None \<and>
   waiters (current (runEvents goodEnv [Call 1, Call 2, LoadSettles False]
     \<lparr>current = initialWorld, inFlight = []\<rparr>)) = [2] \<and>
   inFlight (runEvents goodEnv [Call 1, Call 2, LoadSettles False]
     \<lparr>current = initialWorld, inFlight = []\<rparr>) = [] \<and>
   observed (runEvents goodEnv [Call 1, Call 2, LoadSettles False, Call 3, LoadSettles True]
     \<lparr>current = initialWorld, inFlight = []\<rparr>) 1 = Some False \<and>
   observed (runEvents goodEnv [Call 1, Call 2, LoadSettles False, Call 3, LoadSettles True]
     \<lparr>current = initialWorld, inFlight = []\<rparr>) 2 = Some True"
  by code_simp

text \<open>A rejected load notifies no waiting caller, whatever the state.\<close>

lemma initialize_finish_failure_keeps_waiters:
  "waiters (snd (initialize_finish False w)) = waiters w \<and>
   settled (snd (initialize_finish False w)) = settled w"
proof -
  have "fold notify (filter (changes (app w)) [SetFfmpegLoading False, SetError x]) w0 = w0" for x w0
    by simp
  then show ?thesis
    by (simp add: initialize_finish_def setState_def Let_def)
qed

text \<open>
  In general: when no load is under way, the first of two callers starts the only load and
  the second subscribes; and a rejected load settles its own caller with \<open>False\<close> and no
  one else.
\<close>

lemma notify_other_key:
  "\<not> (\<exists>b. u = SetFfmpegLoaded b) \<Longrightarrow> notify u w = w"
  by (cases u) simp_all

lemma setState_no_loaded_key:
  assumes "\<forall>u \<in> set us. \<not> (\<exists>b. u = SetFfmpegLoaded b)"
  shows "waiters (setState who us w) = waiters w \<and> settled (setState who us w) = settled w
         \<and> ffmpegLoaded (app (setState who us w)) = ffmpegLoaded (app w)"
proof -
  have n: "fold notify vs w0 = w0" if "\<forall>u \<in> set vs. \<not> (\<exists>b. u = SetFfmpegLoaded b)" for vs w0
    using that by (induction vs arbitrary: w0) (simp_all add: notify_other_key)
  have a: "ffmpegLoaded (fold assign vs s) = ffmpegLoaded s"
    if "\<forall>u \<in> set vs. \<not> (\<exists>b. u = SetFfmpegLoaded b)" for vs s
    using that
  proof (induction vs arbitrary: s)
    case Nil
    show ?case by simp
  next
    case (Cons v vs)
    then have "ffmpegLoaded (assign v s) = ffmpegLoaded s" by (cases v) auto
    with Cons show ?case by simp
  qed
  have f: "\<forall>u \<in> set (filter (changes (app w)) us). \<not> (\<exists>b. u = SetFfmpegLoaded b)"
    using assms by simp
  show ?thesis
    using n [OF f] a [OF f] by (simp add: setState_def Let_def)
qed

lemma two_callers_one_load:
  assumes "\<not> loaded w" and "\<not> ffmpegLoading (app w)" and "hasSharedArrayBuffer e"
  shows "loadCount (runEvents e [Call a, Call b] \<lparr>current = w, inFlight = []\<rparr>) =
           loadCount \<lparr>current = w, inFlight = []\<rparr> + 1 \<and>
         inFlight (runEvents e [Call a, Call b] \<lparr>current = w, inFlight = []\<rparr>) = [a] \<and>
         waiters (current (runEvents e [Call a, Call b] \<lparr>current = w, inFlight = []\<rparr>)) =
           waiters w @ [b]"
proof -
  let ?w1 = "setState EngineLoader
               [SetFfmpegLoading True, SetProgressMessage LOADING_FFMPEG, SetProgress 0] w"
  let ?w2 = "?w1\<lparr>vfs := Map.empty, engineLog := engineLog ?w1 @ [Load]\<rparr>"
  have b1: "initialize_begin e a w = (AwaitLoad, ?w2)"
    using assms by (simp add: initialize_begin_def Let_def)
  have l: "ffmpegLoading (app ?w1)" by (auto simp: setState_app)
  have nl: "\<not> loaded ?w2" using assms(1) by (simp add: setState_frame)
  have b2: "initialize_begin e b ?w2 = (AwaitOther, ?w2\<lparr>waiters := waiters ?w2 @ [b]\<rparr>)"
    using nl l by (simp add: initialize_begin_def)
  have ws: "waiters ?w1 = waiters w"
    using setState_no_loaded_key
      [of "[SetFfmpegLoading True, SetProgressMessage LOADING_FFMPEG, SetProgress 0]" EngineLoader w]
    by simp
  have s: "runEvents e [Call a, Call b] \<lparr>current = w, inFlight = []\<rparr> =
             \<lparr>current = ?w2\<lparr>waiters := waiters ?w2 @ [b]\<rparr>, inFlight = [a]\<rparr>"
    by (simp add: runEvents_def step_def b1 b2)
  show ?thesis
    unfolding s using ws by (simp add: loadCount_def setState_frame)
qed

lemma rejected_load_settles_only_its_caller:
  assumes "inFlight s = a # cs"
  shows "settled (current (step e (LoadSettles False) s)) = settled (current s) @ [(a, False)] \<and>
         waiters (current (step e (LoadSettles False) s)) = waiters (current s)"
proof -
  obtain x w1 where f: "initialize_finish False (current s) = (x, w1)"
    by (cases "initialize_finish False (current s)")
  then have x: "x = False" by (simp add: initialize_finish_def)
  from f initialize_finish_failure_keeps_waiters [of "current s"]
  have "waiters w1 = waiters (current s)" "settled w1 = settled (current s)" by simp_all
  with assms f x show ?thesis by (simp add: step_def)
qed

section \<open>Staging names\<close>

lemma splitDot_nonempty: "splitDot s \<noteq> []"
  by (induction s) (auto split: list.splits)

text \<open>The default extension is never used: \<open>split\<close> returns at least one part.\<close>

lemma getExtension_last: "getExtension f = toLowerCase (last (splitDot (fileName f)))"
  by (simp add: getExtension_def pop_def splitDot_nonempty)

lemma splitDot_no_dot: "CHR ''.'' \<notin> set s \<Longrightarrow> splitDot s = [s]"
  by (induction s) auto

lemma getExtension_no_dot:
  "CHR ''.'' \<notin> set (fileName f) \<Longrightarrow> getExtension f = toLowerCase (fileName f)"
  by (simp add: getExtension_last splitDot_no_dot)

text \<open>
  Claim C7, evaluated on a file whose name has no dot: the staged name takes the whole
  lower-cased file name as its extension, where the claim has the default extension. A name
  with a dot keeps its extension, in lower case.
\<close>

theorem staging_extension_without_dot:
  "getExtension imageNoDot = ''holiday'' \<and>
   fst (stageLoop goodEnv [imageNoDot, imageB] 0 [] (initialWorld\<lparr>loaded := True\<rparr>)) =
     Some [''input0.holiday'', ''input1.png''] \<and>
   getExtension imageA = ''jpg''"
  by code_simp

section \<open>Cleanup\<close>

lemma deleteFile_loaded: "loaded (deleteFile n w) = loaded w"
  by (simp add: deleteFile_def Let_def split: option.splits)


lemma cleanup_loaded: "loaded (cleanup names w) = loaded w"
  unfolding cleanup_def by (induction names arbitrary: w) (simp_all add: deleteFile_loaded)


lemma writeFile_loaded: "loaded (snd (writeFile e n f w)) = loaded w"
  by (simp add: writeFile_def Let_def)

lemma fold_setState_frame:
  "loaded (fold (\<lambda>p. setState who (us p)) ps w) = loaded w"
  "vfs (fold (\<lambda>p. setState who (us p)) ps w) = vfs w"
  "engineLog (fold (\<lambda>p. setState who (us p)) ps w) = engineLog w"
  by (induction ps arbitrary: w; simp add: setState_frame)+

lemma execute_loaded: "loaded (snd (execute e args w)) = loaded w"
  by (simp add: execute_def Let_def fold_setState_frame split: option.splits)


lemma stageLoop_names:
  "stageLoop e files i acc w = (Some names, w') \<Longrightarrow>
     names = acc @ map (\<lambda>j. ''input'' @ showNat j @ ''.'' @ getExtension (files ! j))
                     [i..<length files]"
proof (induction "length files - i" arbitrary: i acc w)
  case 0
  then show ?case by (subst (asm) stageLoop.simps) simp
next
  case (Suc k)
  then have lt: "i < length files" by simp
  let ?name = "''input'' @ showNat i @ ''.'' @ getExtension (files ! i)"
  obtain r w1 where wf: "writeFile e ?name (files ! i) w = (r, w1)"
    by (cases "writeFile e ?name (files ! i) w")
  from Suc.prems lt wf have r: "r \<noteq> None"
    by (subst (asm) stageLoop.simps) (cases r; simp add: Let_def)
  let ?w2 = "setState Orchestrator
               [SetProgress (20 + \<lfloor>dmul (ddiv (of_nat i) (of_nat (length files))) 20\<rfloor>)] w1"
  from Suc.prems lt wf r
  have rec: "stageLoop e files (i + 1) (acc @ [?name]) ?w2 = (Some names, w')"
    by (subst (asm) stageLoop.simps) (auto simp: Let_def)
  have "k = length files - (i + 1)" using Suc.hyps(2) by simp
  from Suc.hyps(1) [OF this rec] lt show ?case
    by (simp add: upt_conv_Cons)
qed



subsection \<open>Deletions requested from the engine\<close>











subsection \<open>Staged names are distinct\<close>

lemma takeWhile_showNat: "takeWhile isDigit (showNat i @ CHR ''.'' # x) = showNat i"
proof -
  have "\<not> isDigit CHR ''.''" by (simp add: isDigit_def)
  moreover have "\<forall>c \<in> set (showNat i). isDigit c" using showNat_digits by blast
  ultimately show ?thesis by (simp add: takeWhile_append2)
qed

lemma staged_name_index:
  assumes "''input'' @ showNat i @ ''.'' @ x = ''input'' @ showNat j @ ''.'' @ y"
  shows "i = j"
proof -
  from assms have "showNat i @ CHR ''.'' # x = showNat j @ CHR ''.'' # y" by simp
  then have "takeWhile isDigit (showNat i @ CHR ''.'' # x) =
             takeWhile isDigit (showNat j @ CHR ''.'' # y)" by (rule arg_cong)
  then have "showNat i = showNat j" by (simp only: takeWhile_showNat)
  then show ?thesis by (rule showNat_inj)
qed

text \<open>The names under which a completed staging loop wrote the inputs differ pairwise.\<close>

lemma staged_names_distinct:
  assumes "stageLoop e files 0 [] w = (Some names, w')"
  shows "distinct names \<and> length names = length files"
proof -
  from stageLoop_names [OF assms]
  have n: "names = map (\<lambda>j. ''input'' @ showNat j @ ''.'' @ getExtension (files ! j))
                     [0..<length files]" by simp
  have "inj_on (\<lambda>j. ''input'' @ showNat j @ ''.'' @ getExtension (files ! j)) A" for A
    by (rule inj_onI) (rule staged_name_index)
  then show ?thesis
    by (simp only: n distinct_map distinct_upt length_map length_upt) simp
qed

section \<open>Progress written by the pipeline\<close>































subsection \<open>Every entry a run adds to the progress log\<close>





















end
